theory Spec2Isabelle
  imports Main "HOL-Library.AList" "HOL-Library.Multiset"
begin

section \<open>Data model of codeownerreport (src/main.go)\<close>

type_synonym path = string

text \<open>
  Go errors. \<open>errors.Is\<close> follows the chain of wrapped errors, so wrapping is part of
  the model; \<open>ErrBranchNotFound\<close> is the sentinel \<open>git.ErrBranchNotFound\<close> that
  line 39 tests for.
\<close>

datatype error = ErrBranchNotFound | ErrOther string | ErrWrapped string error

fun errors_Is :: "error \<Rightarrow> error \<Rightarrow> bool" where
  "errors_Is (ErrWrapped msg inner) target =
     (ErrWrapped msg inner = target \<or> errors_Is inner target)"
| "errors_Is err target = (err = target)"

text \<open>
  A rule of the ruleset as \<open>main\<close> sees it: the loop of lines 117-126 reads only the
  field \<open>Owners\<close>. The owner type is left open; line 124 renders an owner with its
  \<open>String\<close> method.
\<close>

record 'o rule =
  pattern :: string
  Owners :: "'o list"

text \<open>
  What \<open>ruleset.Match(file)\<close> hands back on line 118: a rule pointer and an error,
  either of which may be nil.
\<close>

type_synonym 'o match_result = "'o rule option \<times> error option"

text \<open>
  A Go map is kept as an association list with distinct keys: \<open>m[k] = v\<close> is
  \<open>AList.update k v m\<close>, and reading \<open>m[k]\<close> of a missing key gives the zero value,
  here the nil slice.
\<close>

type_synonym ('k, 'v) gomap = "('k \<times> 'v) list"

definition index :: "('k, 'v list) gomap \<Rightarrow> 'k \<Rightarrow> 'v list" where
  "index m k = (case map_of m k of None \<Rightarrow> [] | Some v \<Rightarrow> v)"

text \<open>
  \<open>for k := range m\<close> visits every key once, in an order Go leaves unspecified and
  varies from one loop to the next. The order is chosen by a list of numbers: each
  one picks the next element among those not visited yet. Every list of numbers
  yields a permutation, and every permutation is yielded by some list.
\<close>

function range_order :: "nat list \<Rightarrow> 'a list \<Rightarrow> 'a list" where
  "range_order choice [] = []"
| "range_order [] (x # xs) = x # xs"
| "range_order (n # choice) (x # xs) =
     (let i = n mod length (x # xs)
      in (x # xs) ! i # range_order choice (take i (x # xs) @ drop (Suc i) (x # xs)))"
  by pat_completeness auto
termination
  by (relation "measure (\<lambda>(choice, xs). length xs)") auto

section \<open>Changed paths (lines 105-115)\<close>

text \<open>
  A file patch as the loop reads it: \<open>fp.Files()\<close> gives the file before and the file
  after the change, either of which may be nil, and only \<open>Path()\<close> of each is used.
\<close>

type_synonym file_patch = "path option \<times> path option"

text \<open>
  Modelled from the spec: the four kinds of per-file change record that the tree diff of
  the imported package go-git yields (its source is not under src/), with the old path on
  the "from" side and the new path on the "to" side; the side on which the file does not
  exist is nil.
\<close>

definition modification :: "path \<Rightarrow> file_patch" where
  "modification p = (Some p, Some p)"

definition addition :: "path \<Rightarrow> file_patch" where
  "addition new = (None, Some new)"

definition deletion :: "path \<Rightarrow> file_patch" where
  "deletion old = (Some old, None)"

definition rename :: "path \<Rightarrow> path \<Rightarrow> file_patch" where
  "rename old new = (Some old, Some new)"

fun FilePatches_loop ::
  "file_patch list \<Rightarrow> (path, string list) gomap \<Rightarrow> (path, string list) gomap" where
  "FilePatches_loop [] fileOwners = fileOwners"
| "FilePatches_loop ((ffrom, fto) # fps) fileOwners =
     (let fileOwners1 = (case ffrom of None \<Rightarrow> fileOwners
                         | Some f \<Rightarrow> AList.update f [] fileOwners);
          fileOwners2 = (case fto of None \<Rightarrow> fileOwners1
                         | Some t \<Rightarrow> AList.update t [] fileOwners1)
      in FilePatches_loop fps fileOwners2)"

definition changed_paths :: "file_patch list \<Rightarrow> path list" where
  "changed_paths patch = map fst (FilePatches_loop patch [])"

section \<open>Matching every changed path (lines 117-126)\<close>

text \<open>
  How a run ends early: \<open>os.Exit(1)\<close> after a logged error, or the runtime panic of a
  nil pointer dereference.
\<close>

datatype abort = Exit nat | Panic

text \<open>
  One pass of the loop body. The error is tested first (line 119); a file whose match
  failed keeps the nil slice it was entered with. Line 123 then reads \<open>rule.Owners\<close>
  through the pointer, which panics when the pointer is nil.
\<close>

fun match_loop ::
  "(path \<Rightarrow> 'o match_result) \<Rightarrow> ('o \<Rightarrow> string) \<Rightarrow> path list \<Rightarrow>
   (path, string list) gomap \<Rightarrow> abort + (path, string list) gomap" where
  "match_loop Match String [] fileOwners = Inr fileOwners"
| "match_loop Match String (file # files) fileOwners =
     (case Match file of
        (_, Some err) \<Rightarrow> match_loop Match String files fileOwners
      | (None, None) \<Rightarrow> Inl Panic
      | (Some rule, None) \<Rightarrow>
          match_loop Match String files
            (AList.update file (map String (Owners rule)) fileOwners))"

section \<open>Inverting into owner to files (lines 128-133)\<close>

fun owners_loop ::
  "path \<Rightarrow> string list \<Rightarrow> (string, path list) gomap \<Rightarrow> (string, path list) gomap" where
  "owners_loop file [] ownerFiles = ownerFiles"
| "owners_loop file (owner # owners) ownerFiles =
     owners_loop file owners (AList.update owner (index ownerFiles owner @ [file]) ownerFiles)"

fun fileOwners_loop ::
  "(path \<times> string list) list \<Rightarrow> (string, path list) gomap \<Rightarrow> (string, path list) gomap" where
  "fileOwners_loop [] ownerFiles = ownerFiles"
| "fileOwners_loop ((file, owners) # rest) ownerFiles =
     fileOwners_loop rest (owners_loop file owners ownerFiles)"

section \<open>Printing (lines 134-141)\<close>

text \<open>
  Modelled from the spec: \<open>lo.Uniq\<close> of the imported package samber/lo (its source is not
  under src/), which removes exact duplicates from a slice; the first occurrence of each
  element is the one kept, in the order of the slice.
\<close>

fun Uniq_loop :: "'a list \<Rightarrow> 'a list \<Rightarrow> 'a list \<Rightarrow> 'a list" where
  "Uniq_loop [] seen result = result"
| "Uniq_loop (x # xs) seen result =
     (if x \<in> set seen then Uniq_loop xs seen result
      else Uniq_loop xs (x # seen) (result @ [x]))"

definition Uniq :: "'a list \<Rightarrow> 'a list" where
  "Uniq collection = Uniq_loop collection [] []"

text \<open>
  The report is the sequence of blocks the last loop prints: for each owner, in the
  order the map is ranged over, the owner and the value of \<open>files\<close> on line 135.
\<close>

type_synonym report = "(string \<times> path list) list"

definition ownerFiles_loop :: "string list \<Rightarrow> (string, path list) gomap \<Rightarrow> report" where
  "ownerFiles_loop owners ownerFiles =
     map (\<lambda>owner. (owner, Uniq (index ownerFiles owner))) owners"

text \<open>The lines written to standard output for one block, and for the whole report.\<close>

definition print_block :: "string \<times> path list \<Rightarrow> string list" where
  "print_block b = [[], fst b] @ map (\<lambda>file. ''  '' @ file) (snd b)"

definition print_report :: "report \<Rightarrow> string list" where
  "print_report r = concat (map print_block r)"

text \<open>
  Lines 105-141 together, for the file patches of the diff: \<open>c1\<close>, \<open>c2\<close> and \<open>c3\<close>
  choose the orders of the three \<open>range\<close> loops over maps (lines 117, 129 and 134).
\<close>

definition aggregate ::
  "(path \<Rightarrow> 'o match_result) \<Rightarrow> ('o \<Rightarrow> string) \<Rightarrow> nat list \<Rightarrow> nat list \<Rightarrow> nat list \<Rightarrow>
   file_patch list \<Rightarrow> abort + report" where
  "aggregate Match String c1 c2 c3 patch =
     (let fileOwners = FilePatches_loop patch []
      in case match_loop Match String (range_order c1 (map fst fileOwners)) fileOwners of
           Inl a \<Rightarrow> Inl a
         | Inr fileOwners' \<Rightarrow>
             (let ownerFiles = fileOwners_loop (range_order c2 fileOwners') []
              in Inr (ownerFiles_loop (range_order c3 (map fst ownerFiles)) ownerFiles)))"

section \<open>Paths of a patch and owners of a path\<close>

text \<open>The paths a file patch names: the path of each side that is not nil.\<close>

definition paths_of :: "file_patch \<Rightarrow> path set" where
  "paths_of fp = set_option (fst fp) \<union> set_option (snd fp)"

text \<open>
  The owner strings that line 123 stores for a file: those of the rule that \<open>Match\<close>
  returned without an error, and none otherwise.
\<close>

definition owners_for :: "(path \<Rightarrow> 'o match_result) \<Rightarrow> ('o \<Rightarrow> string) \<Rightarrow> path \<Rightarrow> string list" where
  "owners_for Match String file =
     (case Match file of (Some rule, None) \<Rightarrow> map String (Owners rule) | _ \<Rightarrow> [])"

section \<open>The run as a whole (function \<open>main\<close>, lines 14-142)\<close>

type_synonym hash = string
type_synonym commit = string
type_synonym tree = string
type_synonym changes = string

text \<open>
  What \<open>main\<close> reads of a reference (\<open>Name().IsBranch()\<close>, \<open>Hash()\<close>) and of a
  branch configuration (\<open>Name\<close>, \<open>Merge\<close>).
\<close>

record reference =
  ref_IsBranch :: bool
  ref_Hash :: hash

record branch_config =
  branch_Name :: string
  branch_Merge :: string

text \<open>
  Everything outside \<open>main\<close> that the run depends on: the answer of each call into the
  file system, go-git and the codeowners package, and the orders in which the three
  \<open>range\<close> loops visit their maps. \<open>'r\<close> is the type of the loaded ruleset.
\<close>

record ('r, 'o) env =
  env_loadRuleset :: "error + 'r"
  env_PlainOpen :: "error + unit"
  env_Head :: "error + reference"
  env_Branch :: "string \<Rightarrow> error + branch_config"
  env_Reference :: "string \<Rightarrow> error + reference"
  env_CommitObject :: "hash \<Rightarrow> error + commit"
  env_MergeBase :: "commit \<Rightarrow> commit \<Rightarrow> error + commit list"
  env_Tree :: "commit \<Rightarrow> error + tree"
  env_Diff :: "tree \<Rightarrow> tree \<Rightarrow> error + changes"
  env_Patch :: "changes \<Rightarrow> error + file_patch list"
  env_Match :: "'r \<Rightarrow> path \<Rightarrow> 'o match_result"
  env_String :: "'o \<Rightarrow> string"
  env_range117 :: "nat list"
  env_range129 :: "nat list"
  env_range134 :: "nat list"

text \<open>
  What a run does that can be observed: its calls, in order, the messages it logs
  (\<open>slog\<close> writes to standard error) and the lines it prints to standard output.
\<close>

datatype event =
    Call_loadRuleset
  | Call_PlainOpen
  | Call_Head
  | Call_Branch string
  | Call_Reference string
  | Call_CommitObject hash
  | Call_MergeBase commit commit
  | Call_Tree commit
  | Call_Diff tree tree
  | Call_Patch changes
  | Log_Error string
  | Log_Info string
  | Print string

text \<open>A piece of the run: the events so far, and either how it ended early or its value.\<close>

type_synonym 'a prog = "event list \<times> (abort + 'a)"

definition bind :: "'a prog \<Rightarrow> ('a \<Rightarrow> 'b prog) \<Rightarrow> 'b prog" where
  "bind m f =
     (case snd m of
        Inl a \<Rightarrow> (fst m, Inl a)
      | Inr x \<Rightarrow> (fst m @ fst (f x), snd (f x)))"

text \<open>
  The recurring shape \<open>v, err := call(); if err != nil { slog.Error(msg); os.Exit(1) }\<close>.
\<close>

definition step :: "event \<Rightarrow> string \<Rightarrow> error + 'a \<Rightarrow> 'a prog" where
  "step ev msg res =
     (case res of
        Inl err \<Rightarrow> ([ev, Log_Error msg], Inl (Exit 1))
      | Inr v \<Rightarrow> ([ev], Inr v))"

text \<open>Lines 15-36: the ruleset, the repository and the current branch.\<close>

definition open_branch :: "('r, 'o) env \<Rightarrow> ('r \<times> reference) prog" where
  "open_branch e =
     bind (step Call_loadRuleset ''Error loading ruleset.'' (env_loadRuleset e)) (\<lambda>ruleset.
     bind (step Call_PlainOpen ''Error opening repository.'' (env_PlainOpen e)) (\<lambda>repo.
     bind (step Call_Head ''Error getting current branch.'' (env_Head e)) (\<lambda>currentBranch.
       if \<not> ref_IsBranch currentBranch
       then ([Log_Error ''Not on a branch.''], Inl (Exit 1))
       else ([Log_Info ''Selected current branch.''], Inr (ruleset, currentBranch)))))"

text \<open>
  Lines 38-45: \<open>main\<close> is looked up; \<open>master\<close> is looked up only when that failed with
  an error that is \<open>ErrBranchNotFound\<close>; whatever error is left then ends the run.
\<close>

definition find_main_branch :: "('r, 'o) env \<Rightarrow> branch_config prog" where
  "find_main_branch e =
     (case env_Branch e ''main'' of
        Inr mainBranch \<Rightarrow> ([Call_Branch ''main''], Inr mainBranch)
      | Inl err \<Rightarrow>
          if errors_Is err ErrBranchNotFound
          then bind ([Call_Branch ''main''], Inr ())
                 (\<lambda>_. step (Call_Branch ''master'') ''Error finding main branch.''
                         (env_Branch e ''master''))
          else ([Call_Branch ''main'', Log_Error ''Error finding main branch.''], Inl (Exit 1)))"

text \<open>
  Lines 47-103: both commits, their merge base, both trees, the diff and its patch.
  Line 72 ends the run when there is no merge base; line 77 takes the first one.
\<close>

definition diff_trees :: "('r, 'o) env \<Rightarrow> reference \<Rightarrow> branch_config \<Rightarrow> file_patch list prog" where
  "diff_trees e currentBranch mainBranch =
     bind (step (Call_Reference (branch_Merge mainBranch))
             ''Error resolving main branch to reference.''
             (env_Reference e (branch_Merge mainBranch))) (\<lambda>mainRef.
     bind (step (Call_CommitObject (ref_Hash mainRef))
             ''Error resolving main branch to commit.''
             (env_CommitObject e (ref_Hash mainRef))) (\<lambda>mainCommit.
     bind ([Log_Info ''Selected reference branch.''], Inr ()) (\<lambda>_.
     bind (step (Call_CommitObject (ref_Hash currentBranch))
             ''Error resolving HEAD commit.''
             (env_CommitObject e (ref_Hash currentBranch))) (\<lambda>currentCommit.
     bind (step (Call_MergeBase currentCommit mainCommit)
             ''Error resolving merge base commit.''
             (env_MergeBase e currentCommit mainCommit)) (\<lambda>baseCommits.
       case baseCommits of
         [] \<Rightarrow> ([Log_Error ''Could not find merge base.''], Inl (Exit 1))
       | baseCommit # others \<Rightarrow>
     bind ([Log_Info ''Identified base commit.''], Inr ()) (\<lambda>_.
     bind (step (Call_Tree baseCommit)
             ''Error getting base commit tree.'' (env_Tree e baseCommit)) (\<lambda>baseTree.
     bind (step (Call_Tree currentCommit)
             ''Error getting current commit tree.'' (env_Tree e currentCommit)) (\<lambda>currentTree.
     bind (step (Call_Diff baseTree currentTree)
             ''Error determining diff between trees.''
             (env_Diff e baseTree currentTree)) (\<lambda>diff.
       step (Call_Patch diff) ''Error getting patch from diff.'' (env_Patch e diff))))))))))"

text \<open>The messages the loop of lines 117-126 logs (line 120), up to a panic if there is one.\<close>

fun match_log :: "(path \<Rightarrow> 'o match_result) \<Rightarrow> path list \<Rightarrow> event list" where
  "match_log Match [] = []"
| "match_log Match (file # files) =
     (case Match file of
        (_, Some err) \<Rightarrow> Log_Error ''Failed to match rule for file.'' # match_log Match files
      | (None, None) \<Rightarrow> []
      | (Some rule, None) \<Rightarrow> match_log Match files)"

text \<open>Lines 105-141: matching, inverting and printing.\<close>

definition print_owners :: "('r, 'o) env \<Rightarrow> 'r \<Rightarrow> file_patch list \<Rightarrow> unit prog" where
  "print_owners e ruleset patch =
     (let logged = match_log (env_Match e ruleset)
                     (range_order (env_range117 e) (changed_paths patch))
      in case aggregate (env_Match e ruleset) (env_String e)
                (env_range117 e) (env_range129 e) (env_range134 e) patch of
           Inl a \<Rightarrow> (logged, Inl a)
         | Inr r \<Rightarrow> (logged @ map Print (print_report r), Inr ()))"

definition main :: "('r, 'o) env \<Rightarrow> unit prog" where
  "main e =
     bind (open_branch e) (\<lambda>(ruleset, currentBranch).
     bind (find_main_branch e) (\<lambda>mainBranch.
     bind (diff_trees e currentBranch mainBranch) (\<lambda>patch.
       print_owners e ruleset patch)))"

text \<open>The exit status of the process and what it wrote to standard output.\<close>

definition exit_code :: "'a prog \<Rightarrow> nat" where
  "exit_code p = (case snd p of Inl (Exit n) \<Rightarrow> n | Inl Panic \<Rightarrow> 2 | Inr v \<Rightarrow> 0)"

fun printed :: "event list \<Rightarrow> string list" where
  "printed [] = []"
| "printed (Print line # evs) = line # printed evs"
| "printed (ev # evs) = printed evs"

definition stdout :: "'a prog \<Rightarrow> string list" where
  "stdout p = printed (fst p)"

text \<open>The calls that work on the two trees and their difference.\<close>

fun diff_work :: "event \<Rightarrow> bool" where
  "diff_work (Call_MergeBase c m) = True"
| "diff_work (Call_Tree c) = True"
| "diff_work (Call_Diff a b) = True"
| "diff_work (Call_Patch d) = True"
| "diff_work ev = False"

text \<open>
  A report with the order of its blocks, and of the paths in each block, forgotten.
\<close>

definition report_bag :: "report \<Rightarrow> (string \<times> path multiset) multiset" where
  "report_bag r = mset (map (\<lambda>b. (fst b, mset (snd b))) r)"

definition up_to_order :: "abort + report \<Rightarrow> abort + (string \<times> path multiset) multiset" where
  "up_to_order res = (case res of Inl a \<Rightarrow> Inl a | Inr r \<Rightarrow> Inr (report_bag r))"

section \<open>Example runs\<close>

text \<open>
  The branch \<open>main\<close> exists, two commits are common ancestors, and the patch adds
  \<open>b.go\<close> and \<open>a.go\<close> and modifies \<open>LICENSE\<close>; the rule for \<open>LICENSE\<close> names no owner,
  every other file belongs to \<open>@x\<close>.
\<close>

definition example_Match :: "unit \<Rightarrow> path \<Rightarrow> string match_result" where
  "example_Match ruleset file =
     (if file = ''LICENSE'' then (Some \<lparr>pattern = ''LICENSE'', Owners = []\<rparr>, None)
      else (Some \<lparr>pattern = ''*'', Owners = [''x'']\<rparr>, None))"

definition at_String :: "string \<Rightarrow> string" where
  "at_String owner = ''@'' @ owner"

definition example_env :: "(unit, string) env" where
  "example_env =
     \<lparr>env_loadRuleset = Inr (),
      env_PlainOpen = Inr (),
      env_Head = Inr \<lparr>ref_IsBranch = True, ref_Hash = ''c2''\<rparr>,
      env_Branch = (\<lambda>name. if name = ''main''
                      then Inr \<lparr>branch_Name = ''main'', branch_Merge = ''refs/heads/main''\<rparr>
                      else Inl ErrBranchNotFound),
      env_Reference = (\<lambda>name. Inr \<lparr>ref_IsBranch = True, ref_Hash = ''c1''\<rparr>),
      env_CommitObject = (\<lambda>h. Inr h),
      env_MergeBase = (\<lambda>c m. Inr [''c0'', ''c9'']),
      env_Tree = (\<lambda>c. Inr c),
      env_Diff = (\<lambda>a b. Inr (a @ ''..'' @ b)),
      env_Patch = (\<lambda>d. Inr [addition ''b.go'', addition ''a.go'', modification ''LICENSE'']),
      env_Match = example_Match,
      env_String = at_String,
      env_range117 = [],
      env_range129 = [],
      env_range134 = []\<rparr>"

text \<open>
  A patch in which two diff records touch \<open>new.go\<close>, matched by a rule that names the
  same owner twice.
\<close>

definition rename_patch :: "file_patch list" where
  "rename_patch = [rename ''old.go'' ''new.go'', modification ''new.go'']"

definition doubled_Match :: "path \<Rightarrow> string match_result" where
  "doubled_Match file = (Some \<lparr>pattern = ''*'', Owners = [''a'', ''a'']\<rparr>, None)"

text \<open>The same run in a repository where the two commits have no common ancestor.\<close>

definition unrelated_env :: "(unit, string) env" where
  "unrelated_env = example_env\<lparr>env_MergeBase := (\<lambda>c m. Inr [])\<rparr>"

text \<open>The same run where neither \<open>main\<close> nor \<open>master\<close> is found.\<close>

definition no_mainline_env :: "(unit, string) env" where
  "no_mainline_env = example_env\<lparr>env_Branch := (\<lambda>name. Inl ErrBranchNotFound)\<rparr>"

text \<open>The same run where looking up \<open>main\<close> fails for another reason.\<close>

definition broken_config_env :: "(unit, string) env" where
  "broken_config_env =
     example_env\<lparr>env_Branch := (\<lambda>name. if name = ''main''
        then Inl (ErrWrapped ''read config'' (ErrOther ''permission denied''))
        else Inr \<lparr>branch_Name = ''master'', branch_Merge = ''refs/heads/master''\<rparr>)\<rparr>"

text \<open>
  The same run on a branch that changes \<open>README.md\<close> and \<open>Makefile\<close>, where the matcher
  knows an owner for \<open>README.md\<close> and hands back neither a rule nor an error for
  \<open>Makefile\<close>.
\<close>

definition unowned_Match :: "unit \<Rightarrow> path \<Rightarrow> string match_result" where
  "unowned_Match ruleset file =
     (if file = ''Makefile'' then (None, None)
      else (Some \<lparr>pattern = ''*.md'', Owners = [''docs-team'']\<rparr>, None))"

definition unowned_env :: "(unit, string) env" where
  "unowned_env =
     example_env\<lparr>env_Patch := (\<lambda>d. Inr [modification ''README.md'', addition ''Makefile'']),
                 env_Match := unowned_Match\<rparr>"

section \<open>The matcher of the codeowners package, as the specification describes it\<close>

text \<open>
  Modelled from the spec: the error with which \<open>match\<close> fails when no rule matches
  (section 4.1, "fails with NoMatchError"). The package github.com/hmarr/codeowners that
  \<open>main\<close> calls is not under src/.
\<close>

definition NoMatchError :: error where
  "NoMatchError = ErrOther ''NoMatchError''"

text \<open>
  Modelled from the spec: \<open>Ruleset.Match\<close> of the codeowners package (not under src/), as
  section 4.1 has it: the rules are evaluated in their declared order and the last rule
  whose pattern matches the path is kept; when no rule matches, the call fails with
  NoMatchError. The scan goes forward and tracks the latest match (section 9). \<open>pm\<close> says
  whether a pattern matches a path. The theorem on this function speaks of paths that
  some rule matches; what a run does when the call of line 118 returns neither a rule
  nor an error is the matter of C1, on \<open>match_loop\<close>.
\<close>

fun latest_match ::
  "(string \<Rightarrow> path \<Rightarrow> bool) \<Rightarrow> 'o rule list \<Rightarrow> path \<Rightarrow> 'o rule option \<Rightarrow> 'o rule option" where
  "latest_match pm [] p latest = latest"
| "latest_match pm (r # rs) p latest =
     latest_match pm rs p (if pm (pattern r) p then Some r else latest)"

definition Ruleset_Match :: "(string \<Rightarrow> path \<Rightarrow> bool) \<Rightarrow> 'o rule list \<Rightarrow> path \<Rightarrow> 'o match_result" where
  "Ruleset_Match pm ruleset p =
     (case latest_match pm ruleset p None of
        None \<Rightarrow> (None, Some NoMatchError)
      | Some r \<Rightarrow> (Some r, None))"

text \<open>
  Modelled from the spec: the patterns of the codeowners package (not under src/), as
  section 4.1 has them: \<open>*\<close> matches within a path segment, \<open>**\<close> matches across
  segments, a leading \<open>/\<close> anchors the pattern to the root, a trailing \<open>/\<close> restricts it
  to directories, and a pattern that is not anchored matches at any depth. A pattern
  that matches a directory matches the files beneath it (section 8, the end-to-end
  scenario); the changed paths are paths of files. Nothing else of a pattern language
  is described there, so every other character stands for itself; the theorem on
  patterns is about plain names.
\<close>

fun split_on :: "char \<Rightarrow> string \<Rightarrow> string list" where
  "split_on sep [] = [[]]"
| "split_on sep (c # cs) =
     (if c = sep then [] # split_on sep cs
      else (case split_on sep cs of
              [] \<Rightarrow> [[c]]
            | s # ss \<Rightarrow> (c # s) # ss))"

fun segment_match :: "string \<Rightarrow> string \<Rightarrow> bool" where
  "segment_match [] [] = True"
| "segment_match [] (d # ds) = False"
| "segment_match (c # cs) [] = (c = CHR ''*'' \<and> segment_match cs [])"
| "segment_match (c # cs) (d # ds) =
     (if c = CHR ''*'' then segment_match cs (d # ds) \<or> segment_match (c # cs) ds
      else c = d \<and> segment_match cs ds)"

fun segments_match :: "bool \<Rightarrow> string list \<Rightarrow> string list \<Rightarrow> bool" where
  "segments_match dir_only [] [] = (\<not> dir_only)"
| "segments_match dir_only [] (x # xs) = True"
| "segments_match dir_only (p # ps) [] = (p = ''**'' \<and> segments_match dir_only ps [])"
| "segments_match dir_only (p # ps) (x # xs) =
     (if p = ''**''
      then segments_match dir_only ps (x # xs) \<or> segments_match dir_only (p # ps) xs
      else segment_match p x \<and> segments_match dir_only ps xs)"

fun at_any_depth :: "bool \<Rightarrow> string list \<Rightarrow> string list \<Rightarrow> bool" where
  "at_any_depth dir_only ps [] = segments_match dir_only ps []"
| "at_any_depth dir_only ps (x # xs) =
     (segments_match dir_only ps (x # xs) \<or> at_any_depth dir_only ps xs)"

definition pattern_match :: "string \<Rightarrow> path \<Rightarrow> bool" where
  "pattern_match pat p =
     (let anchored = (pat \<noteq> [] \<and> hd pat = CHR ''/'');
          pat1 = (if anchored then tl pat else pat);
          dir_only = (pat1 \<noteq> [] \<and> last pat1 = CHR ''/'');
          pat2 = (if dir_only then butlast pat1 else pat1);
          ps = split_on CHR ''/'' pat2;
          xs = split_on CHR ''/'' p
      in if anchored then segments_match dir_only ps xs else at_any_depth dir_only ps xs)"

text \<open>The ruleset of the last-match-wins example in section 8 of the specification.\<close>

definition star_rules :: "string rule list" where
  "star_rules = [\<lparr>pattern = ''*'', Owners = [''A'']\<rparr>, \<lparr>pattern = ''*.go'', Owners = [''B'']\<rparr>]"

text \<open>
  A plain file or directory name: not empty, made of letters, digits, dots, underscores
  and hyphens only, so it holds neither a slash nor a character that a pattern language
  could read as special.
\<close>

definition plain_name :: "string \<Rightarrow> bool" where
  "plain_name d =
     (d \<noteq> [] \<and>
      set d \<subseteq> set ''abcdefghijklmnopqrstuvwxyzABCDEFGHIJKLMNOPQRSTUVWXYZ0123456789._-'')"

section \<open>The order of a range loop is a permutation, and any permutation\<close>

lemma range_order_mset: "mset (range_order choice xs) = mset xs"
proof (induction choice xs rule: range_order.induct)
  case (3 n choice x xs)
  let ?ys = "x # xs"
  let ?i = "n mod length ?ys"
  have i: "?i < length ?ys" by simp
  have "mset ?ys = mset (take ?i ?ys @ ?ys ! ?i # drop (Suc ?i) ?ys)"
    using id_take_nth_drop [OF i] by simp
  then have "mset ?ys = add_mset (?ys ! ?i) (mset (take ?i ?ys @ drop (Suc ?i) ?ys))"
    by simp
  with 3 show ?case by (simp add: Let_def)
qed simp_all

lemma range_order_set: "set (range_order choice xs) = set xs"
  using range_order_mset [of choice xs] by (metis set_mset_mset)

lemma range_order_distinct: "distinct (range_order choice xs) = distinct xs"
  using range_order_mset [of choice xs] by (rule mset_eq_imp_distinct_iff)

lemma range_order_any: "mset ys = mset xs \<Longrightarrow> \<exists>choice. range_order choice xs = ys"
proof (induction ys arbitrary: xs)
  case Nil
  then show ?case by simp
next
  case (Cons y ys)
  then have "y \<in> set xs" by (metis list.set_intros(1) set_mset_mset)
  then obtain i where i: "i < length xs" "xs ! i = y" by (auto simp: in_set_conv_nth)
  then obtain x xs' where xs: "xs = x # xs'" by (cases xs) auto
  let ?rest = "take i xs @ drop (Suc i) xs"
  have "mset xs = add_mset y (mset ?rest)"
    using id_take_nth_drop [OF i(1)] i(2)
    by (metis mset.simps(2) mset_append union_mset_add_mset_right)
  with Cons.prems have "mset ys = mset ?rest" by simp
  from Cons.IH [OF this] obtain c where c: "range_order c ?rest = ys" by blast
  have "range_order (i # c) xs = y # ys"
    using i c xs by (simp add: Let_def)
  then show ?case by blast
qed

section \<open>Removing duplicates\<close>

lemma Uniq_loop_inv:
  "set seen = set result \<Longrightarrow> distinct result \<Longrightarrow>
   distinct (Uniq_loop xs seen result) \<and> set (Uniq_loop xs seen result) = set result \<union> set xs"
  by (induction xs seen result rule: Uniq_loop.induct) auto

lemma Uniq_distinct: "distinct (Uniq xs)"
  by (simp add: Uniq_def Uniq_loop_inv)

lemma Uniq_set: "set (Uniq xs) = set xs"
  by (simp add: Uniq_def Uniq_loop_inv)

section \<open>The keys and values of the map of changed paths\<close>

lemma FilePatches_loop_keys:
  "fst ` set (FilePatches_loop fps fo) = fst ` set fo \<union> (\<Union>fp\<in>set fps. paths_of fp)"
  by (induction fps fo rule: FilePatches_loop.induct)
     (auto simp: paths_of_def AList.dom_update Let_def split: option.splits)

lemma FilePatches_loop_distinct:
  "distinct (map fst fo) \<Longrightarrow> distinct (map fst (FilePatches_loop fps fo))"
  by (induction fps fo rule: FilePatches_loop.induct)
     (auto simp: AList.distinct_update Let_def split: option.splits)

lemma update_values: "snd ` set (AList.update k v fo) \<subseteq> insert v (snd ` set fo)"
proof (induction fo)
  case Nil
  show ?case by simp
next
  case (Cons a fo)
  then show ?case by (cases "fst a = k") auto
qed

lemma subset_insert_chain:
  "X \<subseteq> insert e Y \<Longrightarrow> Y \<subseteq> insert e Z \<Longrightarrow> Z \<subseteq> insert e W \<Longrightarrow> X \<subseteq> insert e W"
  by blast

lemma FilePatches_loop_values:
  "snd ` set (FilePatches_loop fps fo) \<subseteq> insert [] (snd ` set fo)"
proof (induction fps fo rule: FilePatches_loop.induct)
  case (1 fileOwners)
  then show ?case by auto
next
  case (2 ffrom fto fps fileOwners)
  define fo1 where
    "fo1 = (case ffrom of None \<Rightarrow> fileOwners | Some f \<Rightarrow> AList.update f [] fileOwners)"
  define fo2 where "fo2 = (case fto of None \<Rightarrow> fo1 | Some t \<Rightarrow> AList.update t [] fo1)"
  have a: "snd ` set fo1 \<subseteq> insert [] (snd ` set fileOwners)"
  proof (cases ffrom)
    case None
    then show ?thesis by (auto simp: fo1_def)
  next
    case (Some f)
    then show ?thesis using update_values [of f "[]" fileOwners] by (simp add: fo1_def)
  qed
  have b: "snd ` set fo2 \<subseteq> insert [] (snd ` set fo1)"
  proof (cases fto)
    case None
    then show ?thesis by (auto simp: fo2_def)
  next
    case (Some t)
    then show ?thesis using update_values [of t "[]" fo1] by (simp add: fo2_def)
  qed
  have c: "snd ` set (FilePatches_loop fps fo2) \<subseteq> insert [] (snd ` set fo2)"
    using 2 [of fo1 fo2] by (simp add: fo1_def fo2_def)
  have d: "FilePatches_loop ((ffrom, fto) # fps) fileOwners = FilePatches_loop fps fo2"
    unfolding fo2_def fo1_def by (simp add: Let_def)
  show ?case unfolding d by (rule subset_insert_chain [OF c b a])
qed

lemma FilePatches_loop_nil:
  assumes "(p, v) \<in> set (FilePatches_loop fps [])"
  shows "v = []"
proof -
  from assms have "v \<in> snd ` set (FilePatches_loop fps [])" by force
  with FilePatches_loop_values [of fps "[]"] show ?thesis by auto
qed

section \<open>The three loops, one by one\<close>

lemma match_loop_Cons:
  "Match f = (r, Some err) \<Longrightarrow>
     match_loop Match String (f # files) fo = match_loop Match String files fo"
  "Match f = (None, None) \<Longrightarrow> match_loop Match String (f # files) fo = Inl Panic"
  "Match f = (Some rule, None) \<Longrightarrow>
     match_loop Match String (f # files) fo =
     match_loop Match String files (AList.update f (map String (Owners rule)) fo)"
  by (simp_all split: option.splits)

lemma match_loop_panic:
  "\<exists>f\<in>set files. Match f = (None, None) \<Longrightarrow> match_loop Match String files fo = Inl Panic"
proof (induction files arbitrary: fo)
  case Nil
  then show ?case by simp
next
  case (Cons fl files)
  obtain r e where m: "Match fl = (r, e)" by (cases "Match fl")
  show ?case
  proof (cases e)
    case (Some err)
    with m Cons.prems have "\<exists>f\<in>set files. Match f = (None, None)" by auto
    from Cons.IH [OF this] m Some show ?thesis by (simp only: match_loop_Cons)
  next
    case None
    show ?thesis
    proof (cases r)
      case None
      with m \<open>e = None\<close> show ?thesis by (simp only: match_loop_Cons)
    next
      case (Some rule)
      with m \<open>e = None\<close> Cons.prems have "\<exists>f\<in>set files. Match f = (None, None)" by auto
      from Cons.IH [OF this] m Some \<open>e = None\<close> show ?thesis by (simp only: match_loop_Cons)
    qed
  qed
qed

lemma match_loop_abort:
  "match_loop Match String files fo = Inl a \<Longrightarrow>
   a = Panic \<and> (\<exists>f\<in>set files. Match f = (None, None))"
proof (induction files arbitrary: fo)
  case Nil
  then show ?case by simp
next
  case (Cons fl files)
  obtain r e where m: "Match fl = (r, e)" by (cases "Match fl")
  show ?case
  proof (cases e)
    case (Some err)
    with m Cons.prems have "match_loop Match String files fo = Inl a"
      by (simp only: match_loop_Cons)
    from Cons.IH [OF this] show ?thesis by simp
  next
    case None
    show ?thesis
    proof (cases r)
      case None
      with m \<open>e = None\<close> Cons.prems show ?thesis by (simp add: match_loop_Cons del: match_loop.simps)
    next
      case (Some rule)
      with m \<open>e = None\<close> Cons.prems
      have "match_loop Match String files
              (AList.update fl (map String (Owners rule)) fo) = Inl a"
        by (simp only: match_loop_Cons)
      from Cons.IH [OF this] show ?thesis by simp
    qed
  qed
qed

lemma match_loop_result:
  "match_loop Match String files fo = Inr fo' \<Longrightarrow> set files \<subseteq> fst ` set fo \<Longrightarrow>
   map fst fo' = map fst fo \<and>
   (\<forall>k. map_of fo' k =
      (if k \<in> set files \<and> (\<exists>rule. Match k = (Some rule, None))
       then Some (owners_for Match String k) else map_of fo k))"
proof (induction files arbitrary: fo)
  case Nil
  then show ?case by simp
next
  case (Cons fl files)
  obtain r e where m: "Match fl = (r, e)" by (cases "Match fl")
  from Cons.prems(2) have sub: "set files \<subseteq> fst ` set fo" and inn: "fl \<in> fst ` set fo"
    by auto
  show ?case
  proof (cases e)
    case (Some err)
    with m Cons.prems have "match_loop Match String files fo = Inr fo'"
      by (simp only: match_loop_Cons)
    from Cons.IH [OF this sub] m Some show ?thesis by auto
  next
    case None
    show ?thesis
    proof (cases r)
      case None
      with m \<open>e = None\<close> Cons.prems show ?thesis by (simp add: match_loop_Cons del: match_loop.simps)
    next
      case (Some rule)
      let ?v = "map String (Owners rule)"
      let ?fo1 = "AList.update fl ?v fo"
      from Some m \<open>e = None\<close> Cons.prems
      have run: "match_loop Match String files ?fo1 = Inr fo'"
        by (simp only: match_loop_Cons)
      have keys: "map fst ?fo1 = map fst fo" using inn by (simp add: AList.update_keys)
      then have "fst ` set ?fo1 = fst ` set fo" by (metis list.set_map)
      with sub have sub1: "set files \<subseteq> fst ` set ?fo1" by simp
      have v: "owners_for Match String fl = ?v"
        using m Some \<open>e = None\<close> by (simp add: owners_for_def)
      from Cons.IH [OF run sub1]
      have ih1: "map fst fo' = map fst ?fo1"
        and ih2: "\<And>k. map_of fo' k =
          (if k \<in> set files \<and> (\<exists>rule. Match k = (Some rule, None))
           then Some (owners_for Match String k) else map_of ?fo1 k)" by auto
      have "map_of fo' k =
          (if k \<in> set (fl # files) \<and> (\<exists>rule. Match k = (Some rule, None))
           then Some (owners_for Match String k) else map_of fo k)" for k
        using ih2 [of k] v m Some \<open>e = None\<close> by (cases "k = fl") (auto simp: AList.update_conv')
      with ih1 keys show ?thesis by simp
    qed
  qed
qed

lemma index_update:
  "index (AList.update k v m) k' = (if k' = k then v else index m k')"
  by (simp add: index_def AList.update_conv')

lemma owners_loop_keys:
  "fst ` set (owners_loop file owners ofs) = fst ` set ofs \<union> set owners"
  by (induction owners arbitrary: ofs) (auto simp: AList.dom_update)

lemma owners_loop_distinct:
  "distinct (map fst ofs) \<Longrightarrow> distinct (map fst (owners_loop file owners ofs))"
  by (induction owners arbitrary: ofs) (simp_all add: AList.distinct_update)

lemma owners_loop_index:
  "set (index (owners_loop file owners ofs) owner) =
     set (index ofs owner) \<union> (if owner \<in> set owners then {file} else {})"
proof (induction owners arbitrary: ofs)
  case Nil
  show ?case by simp
next
  case (Cons o' owners)
  show ?case
    using Cons.IH [of "AList.update o' (index ofs o' @ [file]) ofs"]
    by (cases "owner = o'") (auto simp: index_update)
qed

lemma fileOwners_loop_keys:
  "fst ` set (fileOwners_loop entries ofs) = fst ` set ofs \<union> (\<Union>e\<in>set entries. set (snd e))"
proof (induction entries arbitrary: ofs)
  case Nil
  show ?case by simp
next
  case (Cons e entries)
  obtain fl owners where e: "e = (fl, owners)" by (cases e)
  show ?case unfolding e by (simp add: Cons.IH owners_loop_keys Un_assoc)
qed

lemma fileOwners_loop_distinct:
  "distinct (map fst ofs) \<Longrightarrow> distinct (map fst (fileOwners_loop entries ofs))"
proof (induction entries arbitrary: ofs)
  case Nil
  then show ?case by simp
next
  case (Cons e entries)
  obtain fl owners where e: "e = (fl, owners)" by (cases e)
  from Cons.prems have "distinct (map fst (owners_loop fl owners ofs))"
    by (rule owners_loop_distinct)
  from Cons.IH [OF this] show ?case unfolding e by simp
qed

lemma fileOwners_loop_index:
  "set (index (fileOwners_loop entries ofs) owner) =
     set (index ofs owner) \<union> {file. \<exists>owners. (file, owners) \<in> set entries \<and> owner \<in> set owners}"
proof (induction entries arbitrary: ofs)
  case Nil
  show ?case by simp
next
  case (Cons e entries)
  obtain fl owners where e: "e = (fl, owners)" by (cases e)
  have "set (index (fileOwners_loop (e # entries) ofs) owner) =
        set (index ofs owner) \<union> (if owner \<in> set owners then {fl} else {}) \<union>
        {file. \<exists>owners. (file, owners) \<in> set entries \<and> owner \<in> set owners}"
    unfolding e by (simp add: Cons.IH owners_loop_index)
  also have "\<dots> = set (index ofs owner) \<union>
        {f. \<exists>os. (f, os) \<in> set (e # entries) \<and> owner \<in> set os}"
    unfolding e by auto
  finally show ?case .
qed

section \<open>Lines 105-141 as a whole\<close>

text \<open>After the match loop every entry holds the owners of its file.\<close>

lemma matched_entries:
  assumes run: "match_loop Match String (range_order c1 (changed_paths patch))
                  (FilePatches_loop patch []) = Inr fo'"
  shows "map fst fo' = changed_paths patch"
    and "set fo' = (\<lambda>f. (f, owners_for Match String f)) ` set (changed_paths patch)"
proof -
  let ?fo = "FilePatches_loop patch []"
  have sub: "set (range_order c1 (changed_paths patch)) \<subseteq> fst ` set ?fo"
    by (simp add: range_order_set changed_paths_def)
  from match_loop_result [OF run sub]
  have keys: "map fst fo' = map fst ?fo"
    and vals: "\<And>k. map_of fo' k =
      (if k \<in> set (range_order c1 (changed_paths patch)) \<and> (\<exists>rule. Match k = (Some rule, None))
       then Some (owners_for Match String k) else map_of ?fo k)" by auto
  from keys show k: "map fst fo' = changed_paths patch" by (simp add: changed_paths_def)
  have d0: "distinct (map fst ?fo)" by (rule FilePatches_loop_distinct) simp
  with keys have d: "distinct (map fst fo')" by simp
  have val: "map_of fo' f = Some (owners_for Match String f)" if f: "f \<in> set (changed_paths patch)" for f
  proof (cases "\<exists>rule. Match f = (Some rule, None)")
    case True
    with vals [of f] f show ?thesis by (simp add: range_order_set)
  next
    case False
    from f obtain v where v: "(f, v) \<in> set ?fo" by (auto simp: changed_paths_def)
    then have "v = []" by (rule FilePatches_loop_nil)
    with v d0 have "map_of ?fo f = Some []" by simp
    moreover have "owners_for Match String f = []"
      using False by (auto simp: owners_for_def split: option.splits prod.splits)
    ultimately show ?thesis using vals [of f] False by simp
  qed
  show "set fo' = (\<lambda>f. (f, owners_for Match String f)) ` set (changed_paths patch)"
  proof (rule set_eqI)
    fix e :: "path \<times> string list"
    obtain f v where e: "e = (f, v)" by (cases e)
    show "e \<in> set fo' \<longleftrightarrow> e \<in> (\<lambda>f. (f, owners_for Match String f)) ` set (changed_paths patch)"
    proof
      assume "e \<in> set fo'"
      with e have in': "(f, v) \<in> set fo'" by simp
      then have "f \<in> set (map fst fo')" by force
      with k have f: "f \<in> set (changed_paths patch)" by simp
      from in' d have "map_of fo' f = Some v" by simp
      with val [OF f] have "v = owners_for Match String f" by simp
      with f e show "e \<in> (\<lambda>f. (f, owners_for Match String f)) ` set (changed_paths patch)" by simp
    next
      assume "e \<in> (\<lambda>f. (f, owners_for Match String f)) ` set (changed_paths patch)"
      with e have f: "f \<in> set (changed_paths patch)" and v: "v = owners_for Match String f" by auto
      from val [OF f] have "(f, owners_for Match String f) \<in> set fo'" by (rule map_of_SomeD)
      with e v show "e \<in> set fo'" by simp
    qed
  qed
qed

lemma aggregate_panic:
  assumes "\<exists>f\<in>set (changed_paths patch). Match f = (None, None)"
  shows "aggregate Match String c1 c2 c3 patch = Inl Panic"
proof -
  from assms have "\<exists>f\<in>set (range_order c1 (changed_paths patch)). Match f = (None, None)"
    by (simp add: range_order_set)
  then have "match_loop Match String (range_order c1 (changed_paths patch))
               (FilePatches_loop patch []) = Inl Panic"
    by (rule match_loop_panic)
  then show ?thesis by (simp add: aggregate_def changed_paths_def Let_def)
qed

lemma aggregate_abort:
  assumes "aggregate Match String c1 c2 c3 patch = Inl a"
  shows "a = Panic \<and> (\<exists>f\<in>set (changed_paths patch). Match f = (None, None))"
proof (cases "match_loop Match String (range_order c1 (changed_paths patch))
               (FilePatches_loop patch [])")
  case (Inl b)
  with assms have "b = a" by (simp add: aggregate_def changed_paths_def Let_def)
  with match_loop_abort [OF Inl] show ?thesis by (simp add: range_order_set)
next
  case (Inr fo')
  with assms show ?thesis by (simp add: aggregate_def changed_paths_def Let_def)
qed

lemma aggregate_returns:
  assumes "\<forall>f\<in>set (changed_paths patch). Match f \<noteq> (None, None)"
  shows "\<exists>rep. aggregate Match String c1 c2 c3 patch = Inr rep"
proof (cases "aggregate Match String c1 c2 c3 patch")
  case (Inl a)
  from aggregate_abort [OF this] assms show ?thesis by blast
next
  case (Inr rep)
  then show ?thesis by blast
qed

lemma aggregate_report:
  assumes agg: "aggregate Match String c1 c2 c3 patch = Inr rep"
  shows "distinct (map fst rep)"
    and "fst ` set rep = (\<Union>f\<in>set (changed_paths patch). set (owners_for Match String f))"
    and "(owner, files) \<in> set rep \<Longrightarrow>
           distinct files \<and>
           set files = {f \<in> set (changed_paths patch). owner \<in> set (owners_for Match String f)}"
proof -
  let ?P = "changed_paths patch"
  obtain fo' where run: "match_loop Match String (range_order c1 ?P)
                           (FilePatches_loop patch []) = Inr fo'"
    using agg by (cases "match_loop Match String (range_order c1 ?P) (FilePatches_loop patch [])")
                 (simp_all add: aggregate_def changed_paths_def Let_def)
  define ownerFiles where "ownerFiles = fileOwners_loop (range_order c2 fo') []"
  have rep: "rep = ownerFiles_loop (range_order c3 (map fst ownerFiles)) ownerFiles"
    using agg run by (simp add: aggregate_def changed_paths_def Let_def ownerFiles_def)
  have entries: "set (range_order c2 fo') = (\<lambda>f. (f, owners_for Match String f)) ` set ?P"
    using matched_entries(2) [OF run] by (simp add: range_order_set)
  have keys: "fst ` set ownerFiles = (\<Union>f\<in>set ?P. set (owners_for Match String f))"
    unfolding ownerFiles_def fileOwners_loop_keys entries by simp
  have dist: "distinct (map fst ownerFiles)"
    unfolding ownerFiles_def by (rule fileOwners_loop_distinct) simp
  have idx: "set (index ownerFiles ow) = {f \<in> set ?P. ow \<in> set (owners_for Match String f)}" for ow
    unfolding ownerFiles_def fileOwners_loop_index entries by (auto simp: index_def)
  have fsts: "map fst rep = range_order c3 (map fst ownerFiles)"
    unfolding rep ownerFiles_loop_def by (simp add: comp_def)
  from fsts dist show "distinct (map fst rep)" by (simp add: range_order_distinct)
  have "fst ` set rep = set (map fst rep)" by simp
  also have "\<dots> = fst ` set ownerFiles" unfolding fsts by (simp add: range_order_set)
  finally show "fst ` set rep = (\<Union>f\<in>set ?P. set (owners_for Match String f))"
    using keys by simp
  assume "(owner, files) \<in> set rep"
  then have "files = Uniq (index ownerFiles owner)"
    unfolding rep ownerFiles_loop_def by auto
  then show "distinct files \<and>
           set files = {f \<in> set ?P. owner \<in> set (owners_for Match String f)}"
    by (simp add: Uniq_distinct Uniq_set idx)
qed

lemma report_covers:
  assumes agg: "aggregate Match String c1 c2 c3 patch = Inr rep"
    and q: "q \<in> set (changed_paths patch)"
    and ow: "owner \<in> set (owners_for Match String q)"
  shows "\<exists>fs. (owner, fs) \<in> set rep \<and> q \<in> set fs"
proof -
  from q ow have "owner \<in> (\<Union>f\<in>set (changed_paths patch). set (owners_for Match String f))"
    by blast
  with aggregate_report(2) [OF agg] have "owner \<in> fst ` set rep" by simp
  then obtain fs where fs: "(owner, fs) \<in> set rep" by force
  from aggregate_report(3) [OF agg fs] q ow have "q \<in> set fs" by simp
  with fs show ?thesis by blast
qed

lemma report_excludes:
  assumes agg: "aggregate Match String c1 c2 c3 patch = Inr rep"
    and none: "owners_for Match String p = []"
    and blk: "(owner, fs) \<in> set rep"
  shows "p \<notin> set fs"
  using aggregate_report(3) [OF agg blk] none by auto

lemma report_bag_eq:
  assumes agg: "aggregate Match String c1 c2 c3 patch = Inr rep"
  shows "report_bag rep =
         image_mset
           (\<lambda>owner. (owner, mset_set {f \<in> set (changed_paths patch).
                                        owner \<in> set (owners_for Match String f)}))
           (mset_set (\<Union>f\<in>set (changed_paths patch). set (owners_for Match String f)))"
proof -
  let ?F = "\<lambda>owner. {f \<in> set (changed_paths patch). owner \<in> set (owners_for Match String f)}"
  let ?h = "\<lambda>owner. (owner, mset_set (?F owner))"
  have blockwise: "(fst b, mset (snd b)) = ?h (fst b)" if b: "b \<in> set rep" for b
  proof -
    obtain owner fs where e: "b = (owner, fs)" by (cases b)
    with b have "(owner, fs) \<in> set rep" by simp
    from aggregate_report(3) [OF agg this]
    have "distinct fs" and "set fs = ?F owner" by simp_all
    then have "mset fs = mset_set (?F owner)" by (metis mset_set_set)
    with e show ?thesis by simp
  qed
  have "map (\<lambda>b. (fst b, mset (snd b))) rep = map (\<lambda>b. ?h (fst b)) rep"
    by (rule map_cong [OF refl]) (rule blockwise)
  also have "\<dots> = map ?h (map fst rep)" by (simp add: comp_def)
  finally have m: "map (\<lambda>b. (fst b, mset (snd b))) rep = map ?h (map fst rep)" .
  have "report_bag rep = mset (map ?h (map fst rep))"
    unfolding report_bag_def m ..
  then have "report_bag rep = image_mset ?h (mset (map fst rep))"
    by (simp only: mset_map)
  moreover have "mset (map fst rep) = mset_set (set (map fst rep))"
    using aggregate_report(1) [OF agg] by (metis mset_set_set)
  moreover have "set (map fst rep) =
      (\<Union>f\<in>set (changed_paths patch). set (owners_for Match String f))"
    using aggregate_report(2) [OF agg] by simp
  ultimately show ?thesis by (simp only:)
qed

lemma owners_for_rule:
  "Match p = (Some rule, None) \<Longrightarrow> owners_for Match String p = map String (Owners rule)"
  by (simp add: owners_for_def)

lemma owners_for_error:
  "Match p = (r, Some err) \<Longrightarrow> owners_for Match String p = []"
  by (simp add: owners_for_def split: option.splits)

section \<open>The stages of a run\<close>

lemma bind_abort: "snd m = Inl a \<Longrightarrow> bind m f = (fst m, Inl a)"
  by (simp add: bind_def)

lemma bind_value: "snd m = Inr x \<Longrightarrow> bind m f = (fst m @ fst (f x), snd (f x))"
  by (simp add: bind_def)

lemma open_branch_events:
  "ev \<in> set (fst (open_branch e)) \<Longrightarrow>
   ev \<in> {Call_loadRuleset, Call_PlainOpen, Call_Head} \<union> range Log_Error \<union> range Log_Info"
  by (auto simp: open_branch_def bind_def step_def split: sum.splits if_splits)

lemma open_branch_abort: "snd (open_branch e) = Inl a \<Longrightarrow> a = Exit 1"
  by (auto simp: open_branch_def bind_def step_def split: sum.splits if_splits)

lemma find_main_branch_events:
  "ev \<in> set (fst (find_main_branch e)) \<Longrightarrow>
   ev \<in> {Call_Branch ''main'', Call_Branch ''master''} \<union> range Log_Error"
  by (auto simp: find_main_branch_def bind_def step_def split: sum.splits if_splits)

lemma find_main_branch_abort: "snd (find_main_branch e) = Inl a \<Longrightarrow> a = Exit 1"
  by (auto simp: find_main_branch_def bind_def step_def split: sum.splits if_splits)

lemma diff_trees_abort: "snd (diff_trees e cb mb) = Inl a \<Longrightarrow> a = Exit 1"
  by (auto simp: diff_trees_def bind_def step_def split: sum.splits list.splits)

lemma diff_trees_events:
  "ev \<in> set (fst (diff_trees e cb mb)) \<Longrightarrow>
   ev \<notin> range Print \<and> ev \<notin> range Call_Branch"
  by (auto simp: diff_trees_def bind_def step_def split: sum.splits list.splits)

lemma diff_trees_no_merge_base:
  "Call_MergeBase c m \<in> set (fst (diff_trees e cb mb)) \<Longrightarrow> env_MergeBase e c m = Inr [] \<Longrightarrow>
   snd (diff_trees e cb mb) = Inl (Exit 1) \<and>
   last (fst (diff_trees e cb mb)) = Log_Error ''Could not find merge base.'' \<and>
   fst (diff_trees e cb mb) \<noteq> []"
  by (auto simp: diff_trees_def bind_def step_def split: sum.splits list.splits)

lemma match_log_events: "ev \<in> set (match_log Match files) \<Longrightarrow> ev \<in> range Log_Error"
proof (induction files)
  case Nil
  then show ?case by simp
next
  case (Cons f files)
  then show ?case by (cases "Match f") (auto split: option.splits)
qed

lemma printed_no_Print: "(\<And>ev. ev \<in> set evs \<Longrightarrow> ev \<notin> range Print) \<Longrightarrow> printed evs = []"
proof (induction evs)
  case Nil
  show ?case by simp
next
  case (Cons ev evs)
  then show ?case by (cases ev) auto
qed

lemma printed_append: "printed (xs @ ys) = printed xs @ printed ys"
proof (induction xs)
  case Nil
  show ?case by simp
next
  case (Cons ev xs)
  then show ?case by (cases ev) auto
qed

lemma printed_Print: "printed (map Print ls) = ls"
  by (induction ls) auto

lemma print_owners_events:
  "ev \<in> set (fst (print_owners e rs patch)) \<Longrightarrow> ev \<in> range Log_Error \<union> range Print"
  by (auto simp: print_owners_def Let_def split: sum.splits dest: match_log_events)

lemma print_owners_abort:
  assumes "snd (print_owners e rs patch) = Inl a"
  shows "a = Panic \<and> printed (fst (print_owners e rs patch)) = []"
proof (cases "aggregate (env_Match e rs) (env_String e)
                (env_range117 e) (env_range129 e) (env_range134 e) patch")
  case (Inl b)
  with assms have ab: "b = a" by (simp add: print_owners_def Let_def)
  from aggregate_abort [OF Inl] ab have "a = Panic" by simp
  moreover have "printed (fst (print_owners e rs patch)) = []"
  proof (rule printed_no_Print)
    fix ev
    assume "ev \<in> set (fst (print_owners e rs patch))"
    with Inl have "ev \<in> set (match_log (env_Match e rs)
                     (range_order (env_range117 e) (changed_paths patch)))"
      by (simp add: print_owners_def Let_def)
    from match_log_events [OF this] show "ev \<notin> range Print" by auto
  qed
  ultimately show ?thesis by simp
next
  case (Inr r)
  with assms show ?thesis by (simp add: print_owners_def Let_def)
qed

lemma main_cases:
  obtains
    (at_setup) a where "snd (open_branch e) = Inl a" "main e = (fst (open_branch e), Inl a)"
  | (at_mainline) rs cb a where "snd (open_branch e) = Inr (rs, cb)"
      "snd (find_main_branch e) = Inl a"
      "main e = (fst (open_branch e) @ fst (find_main_branch e), Inl a)"
  | (at_diff) rs cb mb a where "snd (open_branch e) = Inr (rs, cb)"
      "snd (find_main_branch e) = Inr mb" "snd (diff_trees e cb mb) = Inl a"
      "main e = (fst (open_branch e) @ fst (find_main_branch e) @ fst (diff_trees e cb mb), Inl a)"
  | (at_owners) rs cb mb patch where "snd (open_branch e) = Inr (rs, cb)"
      "snd (find_main_branch e) = Inr mb" "snd (diff_trees e cb mb) = Inr patch"
      "main e = (fst (open_branch e) @ fst (find_main_branch e) @ fst (diff_trees e cb mb) @
                   fst (print_owners e rs patch),
                 snd (print_owners e rs patch))"
proof (cases "snd (open_branch e)")
  case (Inl a)
  then show ?thesis using at_setup by (simp add: main_def bind_def)
next
  case ob: (Inr v)
  obtain rs cb where v: "v = (rs, cb)" by (cases v)
  show ?thesis
  proof (cases "snd (find_main_branch e)")
    case (Inl a)
    with ob v show ?thesis using at_mainline by (simp add: main_def bind_def)
  next
    case fm: (Inr mb)
    show ?thesis
    proof (cases "snd (diff_trees e cb mb)")
      case (Inl a)
      with ob v fm show ?thesis using at_diff by (simp add: main_def bind_def)
    next
      case (Inr patch)
      with ob v fm show ?thesis using at_owners by (simp add: main_def bind_def)
    qed
  qed
qed

lemma setup_quiet:
  assumes "\<And>ev. ev \<in> set evs \<Longrightarrow>
     ev \<in> {Call_loadRuleset, Call_PlainOpen, Call_Head} \<union> range Log_Error \<union> range Log_Info"
  shows "printed evs = []" and "Call_Branch n \<notin> set evs" and "\<forall>ev\<in>set evs. \<not> diff_work ev"
proof -
  show "printed evs = []" by (rule printed_no_Print) (use assms in auto)
  show "Call_Branch n \<notin> set evs" using assms by fastforce
  show "\<forall>ev\<in>set evs. \<not> diff_work ev" using assms by fastforce
qed

lemma open_branch_quiet:
  "printed (fst (open_branch e)) = []"
  "Call_Branch n \<notin> set (fst (open_branch e))"
  "\<forall>ev\<in>set (fst (open_branch e)). \<not> diff_work ev"
proof -
  show "printed (fst (open_branch e)) = []"
    by (rule setup_quiet(1)) (rule open_branch_events)
  show "Call_Branch n \<notin> set (fst (open_branch e))"
    by (rule setup_quiet(2)) (rule open_branch_events)
  show "\<forall>ev\<in>set (fst (open_branch e)). \<not> diff_work ev"
    by (rule setup_quiet(3)) (rule open_branch_events)
qed

lemma find_main_branch_quiet:
  "printed (fst (find_main_branch e)) = []" "\<forall>ev\<in>set (fst (find_main_branch e)). \<not> diff_work ev"
proof -
  show "printed (fst (find_main_branch e)) = []"
    by (rule printed_no_Print) (use find_main_branch_events in fastforce)
  show "\<forall>ev\<in>set (fst (find_main_branch e)). \<not> diff_work ev"
    using find_main_branch_events by fastforce
qed

lemma diff_trees_quiet: "printed (fst (diff_trees e cb mb)) = []"
  by (rule printed_no_Print) (use diff_trees_events in blast)

lemma find_main_branch_other_error:
  "env_Branch e ''main'' = Inl err \<Longrightarrow> \<not> errors_Is err ErrBranchNotFound \<Longrightarrow>
   find_main_branch e =
     ([Call_Branch ''main'', Log_Error ''Error finding main branch.''], Inl (Exit 1))"
  by (simp add: find_main_branch_def)

lemma bind_step_first:
  assumes "R c m = Inr (b # bs)"
  shows "bind (step ev msg (if cc = c \<and> mc = m then Inr [b] else R cc mc))
           (\<lambda>baseCommits. case baseCommits of [] \<Rightarrow> A | baseCommit # others \<Rightarrow> G baseCommit) =
         bind (step ev msg (R cc mc))
           (\<lambda>baseCommits. case baseCommits of [] \<Rightarrow> A | baseCommit # others \<Rightarrow> G baseCommit)"
  using assms by (cases "cc = c \<and> mc = m") (auto simp: bind_def step_def)

lemma diff_trees_first_base:
  assumes "env_MergeBase e c m = Inr (b # bs)"
  shows "diff_trees (e\<lparr>env_MergeBase :=
            (\<lambda>c' m'. if c' = c \<and> m' = m then Inr [b] else env_MergeBase e c' m')\<rparr>) cb mb =
         diff_trees e cb mb"
  unfolding diff_trees_def
  by (simp add: bind_step_first [of "env_MergeBase e", OF assms] cong: list.case_cong)

lemma main_first_base:
  assumes "env_MergeBase e c m = Inr (b # bs)"
  shows "main (e\<lparr>env_MergeBase :=
            (\<lambda>c' m'. if c' = c \<and> m' = m then Inr [b] else env_MergeBase e c' m')\<rparr>) = main e"
proof -
  let ?e' = "e\<lparr>env_MergeBase :=
            (\<lambda>c' m'. if c' = c \<and> m' = m then Inr [b] else env_MergeBase e c' m')\<rparr>"
  have 1: "open_branch ?e' = open_branch e" by (simp add: open_branch_def)
  have 2: "find_main_branch ?e' = find_main_branch e"
    by (simp add: find_main_branch_def cong: sum.case_cong if_cong)
  have 3: "print_owners ?e' rs patch = print_owners e rs patch" for rs patch
    by (simp add: print_owners_def)
  show ?thesis
    unfolding main_def 1 2 3 diff_trees_first_base [OF assms] ..
qed

lemma main_no_merge_base:
  assumes ev: "Call_MergeBase c m \<in> set (fst (main e))" and none: "env_MergeBase e c m = Inr []"
  shows "snd (main e) = Inl (Exit 1) \<and> exit_code (main e) \<noteq> 0 \<and> stdout (main e) = [] \<and>
         last (fst (main e)) = Log_Error ''Could not find merge base.''"
proof (cases e rule: main_cases)
  case (at_setup a)
  with ev open_branch_events [of "Call_MergeBase c m" e] show ?thesis by auto
next
  case (at_mainline rs cb a)
  with ev open_branch_events [of "Call_MergeBase c m" e]
    find_main_branch_events [of "Call_MergeBase c m" e] show ?thesis by auto
next
  case (at_diff rs cb mb a)
  with ev open_branch_events [of "Call_MergeBase c m" e]
    find_main_branch_events [of "Call_MergeBase c m" e]
  have "Call_MergeBase c m \<in> set (fst (diff_trees e cb mb))" by auto
  from diff_trees_no_merge_base [OF this none] at_diff show ?thesis
    by (simp add: exit_code_def stdout_def printed_append open_branch_quiet(1)
          find_main_branch_quiet(1) diff_trees_quiet)
next
  case (at_owners rs cb mb patch)
  with ev open_branch_events [of "Call_MergeBase c m" e]
    find_main_branch_events [of "Call_MergeBase c m" e]
    print_owners_events [of "Call_MergeBase c m" e rs patch]
  have "Call_MergeBase c m \<in> set (fst (diff_trees e cb mb))" by auto
  from diff_trees_no_merge_base [OF this none] at_owners show ?thesis by simp
qed

section \<open>Last match wins\<close>

lemma latest_match_snoc:
  "latest_match pm (rs @ [r]) p latest =
     (if pm (pattern r) p then Some r else latest_match pm rs p latest)"
  by (induction rs arbitrary: latest) simp_all

lemma latest_match_none:
  "\<forall>r\<in>set rs. \<not> pm (pattern r) p \<Longrightarrow> latest_match pm rs p latest = latest"
  by (induction rs arbitrary: latest) simp_all

lemma latest_match_last:
  "\<exists>r\<in>set rs. pm (pattern r) p \<Longrightarrow>
   \<exists>i<length rs. latest_match pm rs p latest = Some (rs ! i) \<and> pm (pattern (rs ! i)) p \<and>
      (\<forall>j<length rs. i < j \<longrightarrow> \<not> pm (pattern (rs ! j)) p)"
proof (induction rs rule: rev_induct)
  case Nil
  then show ?case by simp
next
  case (snoc r rs)
  show ?case
  proof (cases "pm (pattern r) p")
    case True
    have "latest_match pm (rs @ [r]) p latest = Some ((rs @ [r]) ! length rs)"
      using True by (simp add: latest_match_snoc)
    moreover have "pm (pattern ((rs @ [r]) ! length rs)) p" using True by simp
    moreover have "\<forall>j<length (rs @ [r]). length rs < j \<longrightarrow> \<not> pm (pattern ((rs @ [r]) ! j)) p"
      by simp
    moreover have "length rs < length (rs @ [r])" by simp
    ultimately show ?thesis by blast
  next
    case False
    with snoc.prems have "\<exists>r\<in>set rs. pm (pattern r) p" by auto
    from snoc.IH [OF this] obtain i where i: "i < length rs"
      "latest_match pm rs p latest = Some (rs ! i)" "pm (pattern (rs ! i)) p"
      "\<forall>j<length rs. i < j \<longrightarrow> \<not> pm (pattern (rs ! j)) p" by blast
    have 1: "latest_match pm (rs @ [r]) p latest = Some ((rs @ [r]) ! i)"
      using False i(1,2) by (simp add: latest_match_snoc nth_append)
    have 2: "pm (pattern ((rs @ [r]) ! i)) p" using i(1,3) by (simp add: nth_append)
    have 3: "\<not> pm (pattern ((rs @ [r]) ! j)) p" if "j < length (rs @ [r])" "i < j" for j
    proof (cases "j < length rs")
      case True
      with i(4) that show ?thesis by (simp add: nth_append)
    next
      case False
      with that have "j = length rs" by simp
      with \<open>\<not> pm (pattern r) p\<close> show ?thesis by simp
    qed
    have 4: "i < length (rs @ [r])" using i(1) by simp
    from 1 2 3 4 show ?thesis by blast
  qed
qed

section \<open>A nil rule\<close>

text \<open>
  Line 123 has no test for a nil rule: a changed path for which \<open>Match\<close> returns neither
  a rule nor an error ends the run with a panic, before anything is printed.
\<close>

lemma print_owners_nil_rule:
  assumes "p \<in> set (changed_paths patch)" and "env_Match e rs p = (None, None)"
  shows "snd (print_owners e rs patch) = Inl Panic \<and>
         exit_code (print_owners e rs patch) = 2 \<and>
         stdout (print_owners e rs patch) = []"
proof -
  from assms have "\<exists>f\<in>set (changed_paths patch). env_Match e rs f = (None, None)" by blast
  from aggregate_panic [of patch "env_Match e rs", OF this]
  have 1: "snd (print_owners e rs patch) = Inl Panic"
    by (simp add: print_owners_def Let_def)
  from print_owners_abort [OF 1] 1 show ?thesis
    by (simp add: exit_code_def stdout_def)
qed

lemma print_owners_returns:
  assumes "\<forall>f\<in>set (changed_paths patch). env_Match e rs f \<noteq> (None, None)"
  shows "snd (print_owners e rs patch) = Inr ()"
proof -
  from aggregate_returns [of patch "env_Match e rs", OF assms]
  obtain rep where "aggregate (env_Match e rs) (env_String e)
      (env_range117 e) (env_range129 e) (env_range134 e) patch = Inr rep" by blast
  then show ?thesis by (simp add: print_owners_def Let_def)
qed

section \<open>The first merge base is the one whose tree is diffed\<close>

lemma diff_trees_first_base_used:
  "Call_MergeBase c m \<in> set (fst (diff_trees e cb mb)) \<Longrightarrow> env_MergeBase e c m = Inr (b # bs) \<Longrightarrow>
   Call_Tree b \<in> set (fst (diff_trees e cb mb)) \<and>
   (\<forall>t. Call_Tree t \<in> set (fst (diff_trees e cb mb)) \<longrightarrow> t = b \<or> t = c) \<and>
   (\<forall>bt ct. Call_Diff bt ct \<in> set (fst (diff_trees e cb mb)) \<longleftrightarrow>
       env_Tree e b = Inr bt \<and> env_Tree e c = Inr ct)"
  by (auto simp: diff_trees_def bind_def step_def split: sum.splits list.splits)

lemma main_diff_work:
  assumes "diff_work ev"
  shows "ev \<in> set (fst (main e)) \<longleftrightarrow>
         (\<exists>rs cb mb. snd (open_branch e) = Inr (rs, cb) \<and> snd (find_main_branch e) = Inr mb \<and>
            ev \<in> set (fst (diff_trees e cb mb)))"
proof -
  have ob: "ev \<notin> set (fst (open_branch e))"
    using open_branch_quiet(3) [of e] assms by blast
  have fm: "ev \<notin> set (fst (find_main_branch e))"
    using find_main_branch_quiet(2) [of e] assms by blast
  have po: "ev \<notin> set (fst (print_owners e rs patch))" for rs patch
    using print_owners_events [of ev e rs patch] assms by auto
  show ?thesis
  proof (cases e rule: main_cases)
    case (at_setup a)
    with ob show ?thesis by simp
  next
    case (at_mainline rs cb a)
    with ob fm show ?thesis by simp
  next
    case (at_diff rs cb mb a)
    with ob fm show ?thesis by simp
  next
    case (at_owners rs cb mb patch)
    with ob fm po [of rs patch] show ?thesis by simp
  qed
qed

lemma main_first_base_used:
  assumes ev: "Call_MergeBase c m \<in> set (fst (main e))" and mb: "env_MergeBase e c m = Inr (b # bs)"
  shows "Call_Tree b \<in> set (fst (main e)) \<and>
         (\<forall>t. Call_Tree t \<in> set (fst (main e)) \<longrightarrow> t = b \<or> t = c) \<and>
         (\<forall>bt ct. Call_Diff bt ct \<in> set (fst (main e)) \<longleftrightarrow>
             env_Tree e b = Inr bt \<and> env_Tree e c = Inr ct)"
proof -
  from ev obtain rs cb mbr where st: "snd (open_branch e) = Inr (rs, cb)"
      "snd (find_main_branch e) = Inr mbr"
      and dt: "Call_MergeBase c m \<in> set (fst (diff_trees e cb mbr))"
    using main_diff_work [of "Call_MergeBase c m" e] by auto
  have lift: "ev \<in> set (fst (main e)) \<longleftrightarrow> ev \<in> set (fst (diff_trees e cb mbr))"
    if "diff_work ev" for ev
    using main_diff_work [OF that, of e] st by auto
  note u = diff_trees_first_base_used [OF dt mb]
  have 1: "Call_Tree b \<in> set (fst (main e))"
    using u lift [of "Call_Tree b"] by simp
  have 2: "\<forall>t. Call_Tree t \<in> set (fst (main e)) \<longrightarrow> t = b \<or> t = c"
  proof (intro allI impI)
    fix t
    assume "Call_Tree t \<in> set (fst (main e))"
    with lift [of "Call_Tree t"] have "Call_Tree t \<in> set (fst (diff_trees e cb mbr))" by simp
    with u show "t = b \<or> t = c" by blast
  qed
  have 3: "\<forall>bt ct. Call_Diff bt ct \<in> set (fst (main e)) \<longleftrightarrow>
             env_Tree e b = Inr bt \<and> env_Tree e c = Inr ct"
  proof (intro allI)
    fix bt ct
    have "Call_Diff bt ct \<in> set (fst (main e)) \<longleftrightarrow>
          Call_Diff bt ct \<in> set (fst (diff_trees e cb mbr))"
      using lift [of "Call_Diff bt ct"] by simp
    with u show "Call_Diff bt ct \<in> set (fst (main e)) \<longleftrightarrow>
             env_Tree e b = Inr bt \<and> env_Tree e c = Inr ct" by blast
  qed
  from 1 2 3 show ?thesis by (intro conjI)
qed

section \<open>Directory patterns, anchored and not\<close>

lemma plain_name_chars:
  assumes "plain_name d"
  shows "d \<noteq> []" and "CHR ''/'' \<notin> set d" and "CHR ''*'' \<notin> set d"
proof -
  from assms show "d \<noteq> []" by (simp add: plain_name_def)
  from assms have sub: "set d \<subseteq>
      set ''abcdefghijklmnopqrstuvwxyzABCDEFGHIJKLMNOPQRSTUVWXYZ0123456789._-''"
    by (simp add: plain_name_def)
  have "CHR ''/'' \<notin> set ''abcdefghijklmnopqrstuvwxyzABCDEFGHIJKLMNOPQRSTUVWXYZ0123456789._-''"
    by simp
  with sub show "CHR ''/'' \<notin> set d" by blast
  have "CHR ''*'' \<notin> set ''abcdefghijklmnopqrstuvwxyzABCDEFGHIJKLMNOPQRSTUVWXYZ0123456789._-''"
    by simp
  with sub show "CHR ''*'' \<notin> set d" by blast
qed

lemma split_on_nonempty: "split_on sep p \<noteq> []"
  by (induction p) (auto split: list.splits)

lemma split_on_no_sep: "sep \<notin> set s \<Longrightarrow> split_on sep s = [s]"
  by (induction s) auto

lemma split_on_append: "sep \<notin> set s \<Longrightarrow> split_on sep (s @ sep # rest) = s # split_on sep rest"
  by (induction s) auto

lemma split_on_head:
  "split_on sep p = s # ss \<Longrightarrow> ss \<noteq> [] \<Longrightarrow> \<exists>rest. p = s @ sep # rest"
proof (induction p arbitrary: s ss)
  case Nil
  then show ?case by simp
next
  case (Cons c cs)
  show ?case
  proof (cases "c = sep")
    case True
    with Cons.prems have "s = []" by simp
    with True show ?thesis by simp
  next
    case False
    obtain s' ss' where sp: "split_on sep cs = s' # ss'"
      using split_on_nonempty [of sep cs] by (cases "split_on sep cs") auto
    with False Cons.prems have s: "s = c # s'" and ss: "ss = ss'" by simp_all
    from Cons.IH [OF sp] ss Cons.prems(2) obtain rest where "cs = s' @ sep # rest" by blast
    with s show ?thesis by simp
  qed
qed

lemma split_on_Cons_iff:
  assumes "sep \<notin> set d"
  shows "(\<exists>post. post \<noteq> [] \<and> split_on sep p = d # post) \<longleftrightarrow> (\<exists>rest. p = d @ sep # rest)"
proof
  assume "\<exists>post. post \<noteq> [] \<and> split_on sep p = d # post"
  then obtain post where "post \<noteq> []" "split_on sep p = d # post" by blast
  from split_on_head [OF this(2) this(1)] show "\<exists>rest. p = d @ sep # rest" .
next
  assume "\<exists>rest. p = d @ sep # rest"
  then obtain rest where "p = d @ sep # rest" by blast
  with assms have "split_on sep p = d # split_on sep rest" by (simp add: split_on_append)
  with split_on_nonempty [of sep rest] show "\<exists>post. post \<noteq> [] \<and> split_on sep p = d # post"
    by blast
qed

lemma segment_match_literal: "CHR ''*'' \<notin> set d \<Longrightarrow> segment_match d x \<longleftrightarrow> x = d"
proof (induction d arbitrary: x)
  case Nil
  show ?case by (cases x) auto
next
  case (Cons c cs)
  then show ?case by (cases x) auto
qed

lemma segments_match_dir:
  assumes "CHR ''*'' \<notin> set d"
  shows "segments_match True [d] xs \<longleftrightarrow> (\<exists>post. post \<noteq> [] \<and> xs = d # post)"
proof -
  from assms have ne: "d \<noteq> ''**''" by auto
  show ?thesis
  proof (cases xs)
    case Nil
    with ne show ?thesis by simp
  next
    case (Cons x xs')
    with ne assms show ?thesis by (cases xs') (auto simp: segment_match_literal)
  qed
qed

lemma at_any_depth_dir:
  assumes "CHR ''*'' \<notin> set d"
  shows "at_any_depth True [d] xs \<longleftrightarrow> (\<exists>pre post. post \<noteq> [] \<and> xs = pre @ d # post)"
proof (induction xs)
  case Nil
  from assms have "d \<noteq> ''**''" by auto
  then show ?case by simp
next
  case (Cons x xs)
  have "(\<exists>pre post. post \<noteq> [] \<and> x # xs = pre @ d # post) \<longleftrightarrow>
        (\<exists>post. post \<noteq> [] \<and> x # xs = d # post) \<or> (\<exists>pre post. post \<noteq> [] \<and> xs = pre @ d # post)"
  proof
    assume "\<exists>pre post. post \<noteq> [] \<and> x # xs = pre @ d # post"
    then obtain pre post where pp: "post \<noteq> []" "x # xs = pre @ d # post" by blast
    show "(\<exists>post. post \<noteq> [] \<and> x # xs = d # post) \<or>
          (\<exists>pre post. post \<noteq> [] \<and> xs = pre @ d # post)"
    proof (cases pre)
      case Nil
      with pp show ?thesis by auto
    next
      case (Cons y pre')
      with pp have "xs = pre' @ d # post" by simp
      with pp(1) show ?thesis by blast
    qed
  next
    assume "(\<exists>post. post \<noteq> [] \<and> x # xs = d # post) \<or>
            (\<exists>pre post. post \<noteq> [] \<and> xs = pre @ d # post)"
    then show "\<exists>pre post. post \<noteq> [] \<and> x # xs = pre @ d # post"
    proof
      assume "\<exists>post. post \<noteq> [] \<and> x # xs = d # post"
      then obtain post where "post \<noteq> []" "x # xs = [] @ d # post" by auto
      then show ?thesis by blast
    next
      assume "\<exists>pre post. post \<noteq> [] \<and> xs = pre @ d # post"
      then obtain pre post where "post \<noteq> []" "x # xs = (x # pre) @ d # post" by auto
      then show ?thesis by blast
    qed
  qed
  with Cons.IH segments_match_dir [OF assms, of "x # xs"] show ?case by simp
qed

lemma pattern_match_anchored_dir:
  assumes "CHR ''/'' \<notin> set d"
  shows "pattern_match (''/'' @ d @ ''/'') p = segments_match True [d] (split_on CHR ''/'' p)"
  using assms by (simp add: pattern_match_def Let_def split_on_no_sep)

lemma pattern_match_unanchored_dir:
  assumes "d \<noteq> []" and "CHR ''/'' \<notin> set d"
  shows "pattern_match (d @ ''/'') p = at_any_depth True [d] (split_on CHR ''/'' p)"
proof -
  from assms have "hd d \<noteq> CHR ''/''" by (cases d) auto
  with assms show ?thesis by (simp add: pattern_match_def Let_def split_on_no_sep)
qed

lemma same_first_segment:
  "sep \<notin> set a \<Longrightarrow> sep \<notin> set b \<Longrightarrow> a @ sep # x = b @ sep # y \<Longrightarrow> a = b"
proof (induction a arbitrary: b)
  case Nil
  then show ?case by (cases b) auto
next
  case (Cons c cs)
  then show ?case by (cases b) auto
qed

lemma unanchored_dir_deeper:
  assumes d: "d \<noteq> []" "CHR ''/'' \<notin> set d" and dir: "CHR ''/'' \<notin> set dir"
    and m: "pattern_match (d @ ''/'') p"
  shows "pattern_match (d @ ''/'') (dir @ ''/'' @ p)"
proof -
  have "split_on CHR ''/'' (dir @ ''/'' @ p) = dir # split_on CHR ''/'' p"
    using dir by (simp add: split_on_append)
  with m show ?thesis
    by (simp add: pattern_match_unanchored_dir [OF d])
qed

lemma unanchored_dir_any_depth:
  assumes d: "plain_name d" and dirs: "\<forall>s\<in>set dirs. CHR ''/'' \<notin> set s"
  shows "pattern_match (d @ ''/'') (concat (map (\<lambda>s. s @ ''/'') dirs) @ d @ ''/'' @ rest)"
  using dirs
proof (induction dirs)
  case Nil
  note c = plain_name_chars [OF d]
  have "split_on CHR ''/'' (d @ ''/'' @ rest) = [] @ d # split_on CHR ''/'' rest"
    using c(2) by (simp add: split_on_append)
  moreover have "split_on CHR ''/'' rest \<noteq> []" by (rule split_on_nonempty)
  ultimately have "at_any_depth True [d] (split_on CHR ''/'' (d @ ''/'' @ rest))"
    unfolding at_any_depth_dir [OF c(3)] by blast
  then show ?case by (simp add: pattern_match_unanchored_dir [OF c(1) c(2)])
next
  case (Cons s dirs)
  note c = plain_name_chars [OF d]
  from Cons have ih: "pattern_match (d @ ''/'')
      (concat (map (\<lambda>s. s @ ''/'') dirs) @ d @ ''/'' @ rest)" by simp
  from Cons.prems have "CHR ''/'' \<notin> set s" by simp
  from unanchored_dir_deeper [OF c(1) c(2) this ih] show ?case by simp
qed

section \<open>The claims of the specification\<close>

text \<open>
  C2, as the code has it. The claim says that two runs on the same inputs print the same
  text, with each owner's paths in lexicographic order. Nothing in lines 117-141 sorts:
  the order of the blocks and of the paths in a block is the order in which the maps
  happen to be ranged over, so the same inputs can print different texts, and a text that
  is not sorted. What the inputs do determine is the report up to order: whether the run
  panics, and otherwise the owners, each once, and for each owner the paths, each once.
\<close>

theorem report_same_up_to_order:
  "up_to_order (aggregate Match String c1 c2 c3 patch) =
   up_to_order (aggregate Match String d1 d2 d3 patch)"
proof (cases "\<exists>f\<in>set (changed_paths patch). Match f = (None, None)")
  case True
  then show ?thesis by (simp add: aggregate_panic)
next
  case False
  then have ok: "\<forall>f\<in>set (changed_paths patch). Match f \<noteq> (None, None)" by simp
  from aggregate_returns [OF ok] obtain r where r: "aggregate Match String c1 c2 c3 patch = Inr r"
    by blast
  from aggregate_returns [OF ok] obtain r' where r': "aggregate Match String d1 d2 d3 patch = Inr r'"
    by blast
  have "report_bag r = report_bag r'"
    unfolding report_bag_eq [OF r] report_bag_eq [OF r'] ..
  with r r' show ?thesis by (simp add: up_to_order_def)
qed

text \<open>
  C2, as stated, fails: the example run prints \<open>b.go\<close> before \<open>a.go\<close>, and the same run
  with another order of the loop of line 129 prints \<open>a.go\<close> before \<open>b.go\<close>.
\<close>

theorem output_order_counterexample:
  "stdout (main example_env) = ['''', ''@x'', ''  b.go'', ''  a.go''] \<and>
   stdout (main (example_env\<lparr>env_range129 := [1]\<rparr>)) = ['''', ''@x'', ''  a.go'', ''  b.go''] \<and>
   stdout (main example_env) \<noteq> stdout (main (example_env\<lparr>env_range129 := [1]\<rparr>))"
  by code_simp

text \<open>
  C8: in the report of a run that got as far as printing, no owner heads two blocks, no
  block lists a path twice, and the owners of the blocks are exactly the owners that line
  123 stored for at least one changed path.
\<close>

theorem report_owners_and_paths_unique:
  assumes "aggregate Match String c1 c2 c3 patch = Inr rep"
  shows "distinct (map fst rep) \<and>
         (\<forall>(owner, files)\<in>set rep. distinct files) \<and>
         fst ` set rep =
           {owner. \<exists>f\<in>set (changed_paths patch). owner \<in> set (owners_for Match String f)}"
proof -
  have "distinct (map fst rep)" by (rule aggregate_report(1) [OF assms])
  moreover have "\<forall>(owner, files)\<in>set rep. distinct files"
    using aggregate_report(3) [OF assms] by auto
  moreover have "fst ` set rep =
      {owner. \<exists>f\<in>set (changed_paths patch). owner \<in> set (owners_for Match String f)}"
    unfolding aggregate_report(2) [OF assms] by blast
  ultimately show ?thesis by simp
qed

theorem report_owners_and_paths_unique_witness:
  "aggregate doubled_Match at_String [] [] [] rename_patch = Inr [(''@a'', [''old.go'', ''new.go''])] \<and>
   distinct (map fst [(''@a'', [''old.go'', ''new.go''])]) \<and>
   fst ` set [(''@a'', [''old.go'', ''new.go''])] =
     {owner. \<exists>f\<in>set (changed_paths rename_patch).
               owner \<in> set (owners_for doubled_Match at_String f)}"
proof -
  have h: "aggregate doubled_Match at_String [] [] [] rename_patch =
           Inr [(''@a'', [''old.go'', ''new.go''])]"
    by code_simp
  note c = report_owners_and_paths_unique [OF h]
  from c have c1: "distinct (map fst [(''@a'', [''old.go'', ''new.go''])])" by (rule conjunct1)
  from c have c3: "fst ` set [(''@a'', [''old.go'', ''new.go''])] =
     {owner. \<exists>f\<in>set (changed_paths rename_patch).
               owner \<in> set (owners_for doubled_Match at_String f)}"
    by (rule conjunct2 [THEN conjunct2])
  from h c1 c3 show ?thesis by (intro conjI)
qed

text \<open>
  C9: when \<open>Match\<close> returns, without an error, a rule whose owner list is empty, the
  loop body stores the empty list for the path and goes on to the next path; the path is
  not what makes a run panic; and when the run prints its report, the path is in no
  block, while every other changed path is listed under each of its owners.
\<close>

theorem empty_owner_list_contributes_nothing:
  assumes m: "Match p = (Some rule, None)" and e: "Owners rule = []"
  shows "match_loop Match String (p # files) fo =
           match_loop Match String files (AList.update p [] fo) \<and>
         (\<forall>a. aggregate Match String c1 c2 c3 patch = Inl a \<longrightarrow>
              (\<exists>q\<in>set (changed_paths patch). q \<noteq> p \<and> Match q = (None, None))) \<and>
         (\<forall>rep. aggregate Match String c1 c2 c3 patch = Inr rep \<longrightarrow>
              (\<forall>(owner, fs)\<in>set rep. p \<notin> set fs) \<and>
              (\<forall>q\<in>set (changed_paths patch). \<forall>owner\<in>set (owners_for Match String q).
                  \<exists>fs. (owner, fs) \<in> set rep \<and> q \<in> set fs))"
proof (intro conjI allI impI)
  show "match_loop Match String (p # files) fo =
          match_loop Match String files (AList.update p [] fo)"
    using match_loop_Cons(3) [of Match p rule, OF m] e by simp
next
  fix a
  assume "aggregate Match String c1 c2 c3 patch = Inl a"
  from aggregate_abort [OF this]
  obtain q where q: "q \<in> set (changed_paths patch)" "Match q = (None, None)" by blast
  with m have "q \<noteq> p" by auto
  with q show "\<exists>q\<in>set (changed_paths patch). q \<noteq> p \<and> Match q = (None, None)" by blast
next
  fix rep
  assume agg: "aggregate Match String c1 c2 c3 patch = Inr rep"
  have none: "owners_for Match String p = []"
    using owners_for_rule [of Match p rule, OF m] e by simp
  show "\<forall>(owner, fs)\<in>set rep. p \<notin> set fs"
    using report_excludes [OF agg none] by blast
  show "\<forall>q\<in>set (changed_paths patch). \<forall>owner\<in>set (owners_for Match String q).
           \<exists>fs. (owner, fs) \<in> set rep \<and> q \<in> set fs"
    using report_covers [OF agg] by blast
qed

theorem empty_owner_list_contributes_nothing_witness:
  "example_Match () ''LICENSE'' = (Some \<lparr>pattern = ''LICENSE'', Owners = []\<rparr>, None) \<and>
   Owners \<lparr>pattern = ''LICENSE'', Owners = ([] :: string list)\<rparr> = [] \<and>
   match_loop (example_Match ()) at_String [''LICENSE'', ''a.go''] [(''LICENSE'', []), (''a.go'', [])] =
     match_loop (example_Match ()) at_String [''a.go'']
       (AList.update ''LICENSE'' [] [(''LICENSE'', []), (''a.go'', [])])"
proof -
  have h1: "example_Match () ''LICENSE'' = (Some \<lparr>pattern = ''LICENSE'', Owners = []\<rparr>, None)"
    by (simp add: example_Match_def)
  have h2: "Owners \<lparr>pattern = ''LICENSE'', Owners = ([] :: string list)\<rparr> = []" by simp
  from empty_owner_list_contributes_nothing [where Match = "example_Match ()"
      and p = "''LICENSE''" and String = at_String and files = "[''a.go'']"
      and fo = "[(''LICENSE'', []), (''a.go'', [])]" and ?c1.0 = "[]" and ?c2.0 = "[]"
      and ?c3.0 = "[]" and patch = "[]", OF h1 h2] h1 h2
  show ?thesis by (intro conjI) (erule conjunct1 | assumption)+
qed

text \<open>
  C5: after the loop of lines 107-115 the keys of \<open>fileOwners\<close> contain the path of
  every modification, the new path of every addition, the old path of every deletion and
  both paths of every rename; they are exactly the paths the file patches name; and they
  form a set: no path is a key twice, and a \<open>range\<close> loop visits each once.
\<close>

theorem changed_paths_of_patch:
  "(\<forall>p. modification p \<in> set patch \<longrightarrow> p \<in> set (changed_paths patch)) \<and>
   (\<forall>new. addition new \<in> set patch \<longrightarrow> new \<in> set (changed_paths patch)) \<and>
   (\<forall>old. deletion old \<in> set patch \<longrightarrow> old \<in> set (changed_paths patch)) \<and>
   (\<forall>old new. rename old new \<in> set patch \<longrightarrow>
       old \<in> set (changed_paths patch) \<and> new \<in> set (changed_paths patch)) \<and>
   set (changed_paths patch) = (\<Union>fp\<in>set patch. paths_of fp) \<and>
   distinct (changed_paths patch) \<and>
   distinct (range_order choice (changed_paths patch)) \<and>
   set (range_order choice (changed_paths patch)) = set (changed_paths patch)"
proof -
  have s: "set (changed_paths patch) = (\<Union>fp\<in>set patch. paths_of fp)"
    using FilePatches_loop_keys [of patch "[]"] by (simp add: changed_paths_def)
  have d: "distinct (changed_paths patch)"
    unfolding changed_paths_def by (rule FilePatches_loop_distinct) simp
  have a: "fp \<in> set patch \<Longrightarrow> q \<in> paths_of fp \<Longrightarrow> q \<in> set (changed_paths patch)" for fp q
    unfolding s by blast
  have 1: "\<forall>p. modification p \<in> set patch \<longrightarrow> p \<in> set (changed_paths patch)"
    using a by (auto simp: paths_of_def modification_def)
  have 2: "\<forall>new. addition new \<in> set patch \<longrightarrow> new \<in> set (changed_paths patch)"
    using a by (auto simp: paths_of_def addition_def)
  have 3: "\<forall>old. deletion old \<in> set patch \<longrightarrow> old \<in> set (changed_paths patch)"
    using a by (auto simp: paths_of_def deletion_def)
  have 4: "\<forall>old new. rename old new \<in> set patch \<longrightarrow>
       old \<in> set (changed_paths patch) \<and> new \<in> set (changed_paths patch)"
    using a by (auto simp: paths_of_def rename_def)
  from 1 2 3 4 s d show ?thesis
    by (simp only: range_order_distinct range_order_set simp_thms)
qed

theorem changed_paths_of_patch_witness:
  "rename ''old.go'' ''new.go'' \<in> set rename_patch \<and>
   ''old.go'' \<in> set (changed_paths rename_patch) \<and>
   ''new.go'' \<in> set (changed_paths rename_patch) \<and>
   changed_paths rename_patch = [''old.go'', ''new.go'']"
proof -
  have h: "rename ''old.go'' ''new.go'' \<in> set rename_patch" by (simp add: rename_patch_def)
  have c: "changed_paths rename_patch = [''old.go'', ''new.go'']" by code_simp
  from changed_paths_of_patch [of rename_patch "[]"]
  have "\<forall>old new. rename old new \<in> set rename_patch \<longrightarrow>
       old \<in> set (changed_paths rename_patch) \<and> new \<in> set (changed_paths rename_patch)"
    by (elim conjE)
  with h have "''old.go'' \<in> set (changed_paths rename_patch) \<and>
               ''new.go'' \<in> set (changed_paths rename_patch)" by blast
  with h c show ?thesis by (simp only: simp_thms)
qed

text \<open>
  C6: a run that asks for the merge base of two commits and gets an empty list back ends
  with \<open>os.Exit(1)\<close> right after logging "Could not find merge base.", and has printed
  nothing. A run that gets more than one merge base back does exactly what it would do
  had it got only the first; and the first is the one it uses: its tree is asked for,
  no tree is asked for but its own and that of the current commit, and the diff that is
  computed is the diff from its tree to the tree of the current commit.
\<close>

theorem no_merge_base_is_fatal:
  "(Call_MergeBase c m \<in> set (fst (main e)) \<and> env_MergeBase e c m = Inr [] \<longrightarrow>
      snd (main e) = Inl (Exit 1) \<and> exit_code (main e) \<noteq> 0 \<and> stdout (main e) = [] \<and>
      last (fst (main e)) = Log_Error ''Could not find merge base.'') \<and>
   (env_MergeBase e c m = Inr (b # bs) \<longrightarrow>
      main (e\<lparr>env_MergeBase :=
              (\<lambda>c' m'. if c' = c \<and> m' = m then Inr [b] else env_MergeBase e c' m')\<rparr>) = main e) \<and>
   (Call_MergeBase c m \<in> set (fst (main e)) \<and> env_MergeBase e c m = Inr (b # bs) \<longrightarrow>
      Call_Tree b \<in> set (fst (main e)) \<and>
      (\<forall>t. Call_Tree t \<in> set (fst (main e)) \<longrightarrow> t = b \<or> t = c) \<and>
      (\<forall>bt ct. Call_Diff bt ct \<in> set (fst (main e)) \<longleftrightarrow>
          env_Tree e b = Inr bt \<and> env_Tree e c = Inr ct))"
  using main_no_merge_base [of c m e] main_first_base [of e c m b bs]
    main_first_base_used [of c m e b bs] by blast

theorem no_merge_base_is_fatal_witness:
  "Call_MergeBase ''c2'' ''c1'' \<in> set (fst (main unrelated_env)) \<and>
   env_MergeBase unrelated_env ''c2'' ''c1'' = Inr [] \<and>
   snd (main unrelated_env) = Inl (Exit 1) \<and>
   exit_code (main unrelated_env) \<noteq> 0 \<and>
   stdout (main unrelated_env) = [] \<and>
   last (fst (main unrelated_env)) = Log_Error ''Could not find merge base.'' \<and>
   Call_MergeBase ''c2'' ''c1'' \<in> set (fst (main example_env)) \<and>
   env_MergeBase example_env ''c2'' ''c1'' = Inr [''c0'', ''c9''] \<and>
   main (example_env\<lparr>env_MergeBase :=
           (\<lambda>c' m'. if c' = ''c2'' \<and> m' = ''c1'' then Inr [''c0'']
                     else env_MergeBase example_env c' m')\<rparr>) = main example_env \<and>
   Call_Tree ''c0'' \<in> set (fst (main example_env)) \<and>
   Call_Tree ''c9'' \<notin> set (fst (main example_env)) \<and>
   Call_Diff ''c0'' ''c2'' \<in> set (fst (main example_env))"
proof -
  have h1: "Call_MergeBase ''c2'' ''c1'' \<in> set (fst (main unrelated_env))" by code_simp
  have h2: "env_MergeBase unrelated_env ''c2'' ''c1'' = Inr []"
    by (simp add: unrelated_env_def)
  have h3: "env_MergeBase example_env ''c2'' ''c1'' = Inr [''c0'', ''c9'']"
    by (simp add: example_env_def)
  have h4: "Call_MergeBase ''c2'' ''c1'' \<in> set (fst (main example_env))" by code_simp
  have t0: "env_Tree example_env ''c0'' = Inr ''c0''" by (simp add: example_env_def)
  have t2: "env_Tree example_env ''c2'' = Inr ''c2''" by (simp add: example_env_def)
  note a = no_merge_base_is_fatal [of "''c2''" "''c1''" unrelated_env "''c0''" "[''c9'']",
      THEN conjunct1, THEN mp, OF conjI, OF h1 h2]
  note b = no_merge_base_is_fatal [of "''c2''" "''c1''" example_env "''c0''" "[''c9'']",
      THEN conjunct2, THEN conjunct1, THEN mp, OF h3]
  note u = no_merge_base_is_fatal [of "''c2''" "''c1''" example_env "''c0''" "[''c9'']",
      THEN conjunct2, THEN conjunct2, THEN mp, OF conjI, OF h4 h3]
  from u have u1: "Call_Tree ''c0'' \<in> set (fst (main example_env))" by (rule conjunct1)
  from u have "\<forall>t. Call_Tree t \<in> set (fst (main example_env)) \<longrightarrow> t = ''c0'' \<or> t = ''c2''"
    by (rule conjunct2 [THEN conjunct1])
  then have "Call_Tree ''c9'' \<in> set (fst (main example_env)) \<longrightarrow> ''c9'' = ''c0'' \<or> ''c9'' = ''c2''"
    by (rule spec)
  then have u2: "Call_Tree ''c9'' \<notin> set (fst (main example_env))" by simp
  from u have "\<forall>bt ct. Call_Diff bt ct \<in> set (fst (main example_env)) \<longleftrightarrow>
          env_Tree example_env ''c0'' = Inr bt \<and> env_Tree example_env ''c2'' = Inr ct"
    by (rule conjunct2 [THEN conjunct2])
  then have "Call_Diff ''c0'' ''c2'' \<in> set (fst (main example_env)) \<longleftrightarrow>
          env_Tree example_env ''c0'' = Inr ''c0'' \<and> env_Tree example_env ''c2'' = Inr ''c2''"
    by blast
  with t0 t2 have u3: "Call_Diff ''c0'' ''c2'' \<in> set (fst (main example_env))" by (simp only: simp_thms)
  from h1 h2 a h4 h3 b u1 u2 u3 show ?thesis by (simp only: simp_thms)
qed

text \<open>
  C7: the lookup of the mainline starts with \<open>main\<close>; \<open>master\<close> is looked up exactly when
  the lookup of \<open>main\<close> failed with branch-not-found, by this stage and by the run as a
  whole; the branch found is the result; and when neither is found the run ends with
  \<open>os.Exit(1)\<close>, without any call that works on the trees or their diff and without
  printing.
\<close>

theorem mainline_main_then_master:
  "(\<exists>rest. fst (find_main_branch e) = Call_Branch ''main'' # rest) \<and>
   (Call_Branch ''master'' \<in> set (fst (find_main_branch e)) \<longleftrightarrow>
      (\<exists>err. env_Branch e ''main'' = Inl err \<and> errors_Is err ErrBranchNotFound)) \<and>
   (Call_Branch ''master'' \<in> set (fst (main e)) \<longrightarrow>
      (\<exists>err. env_Branch e ''main'' = Inl err \<and> errors_Is err ErrBranchNotFound)) \<and>
   (\<forall>b. env_Branch e ''main'' = Inr b \<longrightarrow> snd (find_main_branch e) = Inr b) \<and>
   (\<forall>err b. env_Branch e ''main'' = Inl err \<and> errors_Is err ErrBranchNotFound \<and>
       env_Branch e ''master'' = Inr b \<longrightarrow> snd (find_main_branch e) = Inr b) \<and>
   (\<forall>err err'. env_Branch e ''main'' = Inl err \<and> errors_Is err ErrBranchNotFound \<and>
       env_Branch e ''master'' = Inl err' \<and> errors_Is err' ErrBranchNotFound \<longrightarrow>
       snd (main e) = Inl (Exit 1) \<and> exit_code (main e) \<noteq> 0 \<and>
       (\<forall>ev\<in>set (fst (main e)). \<not> diff_work ev) \<and> stdout (main e) = [])"
proof (intro conjI allI impI)
  show "\<exists>rest. fst (find_main_branch e) = Call_Branch ''main'' # rest"
    by (auto simp: find_main_branch_def bind_def step_def split: sum.splits)
  show st: "Call_Branch ''master'' \<in> set (fst (find_main_branch e)) \<longleftrightarrow>
      (\<exists>err. env_Branch e ''main'' = Inl err \<and> errors_Is err ErrBranchNotFound)"
    by (auto simp: find_main_branch_def bind_def step_def split: sum.splits)
  show "\<exists>err. env_Branch e ''main'' = Inl err \<and> errors_Is err ErrBranchNotFound"
    if m: "Call_Branch ''master'' \<in> set (fst (main e))"
  proof -
    have "Call_Branch ''master'' \<in> set (fst (find_main_branch e))"
    proof (cases e rule: main_cases)
      case (at_setup a)
      with m open_branch_quiet(2) [of "''master''" e] show ?thesis by simp
    next
      case (at_mainline rs cb a)
      with m open_branch_quiet(2) [of "''master''" e] show ?thesis by simp
    next
      case (at_diff rs cb mb a)
      with m open_branch_quiet(2) [of "''master''" e] diff_trees_events [of "Call_Branch ''master''" e cb mb]
      show ?thesis by auto
    next
      case (at_owners rs cb mb patch)
      with m open_branch_quiet(2) [of "''master''" e] diff_trees_events [of "Call_Branch ''master''" e cb mb]
        print_owners_events [of "Call_Branch ''master''" e rs patch]
      show ?thesis by auto
    qed
    with st show ?thesis by simp
  qed
  show "snd (find_main_branch e) = Inr b" if "env_Branch e ''main'' = Inr b" for b
    using that by (simp add: find_main_branch_def)
  show "snd (find_main_branch e) = Inr b"
    if "env_Branch e ''main'' = Inl err \<and> errors_Is err ErrBranchNotFound \<and>
        env_Branch e ''master'' = Inr b" for err b
    using that by (simp add: find_main_branch_def bind_def step_def)
next
  fix err err'
  assume h: "env_Branch e ''main'' = Inl err \<and> errors_Is err ErrBranchNotFound \<and>
       env_Branch e ''master'' = Inl err' \<and> errors_Is err' ErrBranchNotFound"
  then have fm: "find_main_branch e =
      ([Call_Branch ''main'', Call_Branch ''master'', Log_Error ''Error finding main branch.''],
       Inl (Exit 1))"
    by (simp add: find_main_branch_def bind_def step_def)
  have all: "snd (main e) = Inl (Exit 1) \<and> exit_code (main e) \<noteq> 0 \<and>
       (\<forall>ev\<in>set (fst (main e)). \<not> diff_work ev) \<and> stdout (main e) = []"
  proof (cases e rule: main_cases)
    case (at_setup a)
    from open_branch_abort [OF at_setup(1)] at_setup(2)
    show ?thesis
      by (simp add: exit_code_def stdout_def open_branch_quiet)
  next
    case (at_mainline rs cb a)
    with fm have "a = Exit 1" by simp
    with at_mainline fm open_branch_quiet(3) [of e] show ?thesis
      by (auto simp: exit_code_def stdout_def open_branch_quiet(1) printed_append)
  next
    case (at_diff rs cb mb a)
    with fm show ?thesis by simp
  next
    case (at_owners rs cb mb patch)
    with fm show ?thesis by simp
  qed
  from all show "snd (main e) = Inl (Exit 1)" by simp
  from all show "exit_code (main e) \<noteq> 0" by simp
  from all show "\<forall>ev\<in>set (fst (main e)). \<not> diff_work ev" by simp
  from all show "stdout (main e) = []" by simp
qed

theorem mainline_main_then_master_witness:
  "env_Branch no_mainline_env ''main'' = Inl ErrBranchNotFound \<and>
   errors_Is ErrBranchNotFound ErrBranchNotFound \<and>
   env_Branch no_mainline_env ''master'' = Inl ErrBranchNotFound \<and>
   fst (find_main_branch no_mainline_env) =
     [Call_Branch ''main'', Call_Branch ''master'', Log_Error ''Error finding main branch.''] \<and>
   snd (main no_mainline_env) = Inl (Exit 1) \<and>
   exit_code (main no_mainline_env) \<noteq> 0 \<and>
   stdout (main no_mainline_env) = []"
proof -
  have h1: "env_Branch no_mainline_env ''main'' = Inl ErrBranchNotFound"
    by (simp add: no_mainline_env_def)
  have h2: "errors_Is ErrBranchNotFound ErrBranchNotFound" by simp
  have h3: "env_Branch no_mainline_env ''master'' = Inl ErrBranchNotFound"
    by (simp add: no_mainline_env_def)
  have h4: "fst (find_main_branch no_mainline_env) =
     [Call_Branch ''main'', Call_Branch ''master'', Log_Error ''Error finding main branch.'']"
    by code_simp
  have h: "env_Branch no_mainline_env ''main'' = Inl ErrBranchNotFound \<and>
       errors_Is ErrBranchNotFound ErrBranchNotFound \<and>
       env_Branch no_mainline_env ''master'' = Inl ErrBranchNotFound \<and>
       errors_Is ErrBranchNotFound ErrBranchNotFound"
    using h1 h2 h3 by (intro conjI)
  note t = mainline_main_then_master [of no_mainline_env]
  from t have "\<forall>err err'. env_Branch no_mainline_env ''main'' = Inl err \<and>
       errors_Is err ErrBranchNotFound \<and>
       env_Branch no_mainline_env ''master'' = Inl err' \<and> errors_Is err' ErrBranchNotFound \<longrightarrow>
       snd (main no_mainline_env) = Inl (Exit 1) \<and> exit_code (main no_mainline_env) \<noteq> 0 \<and>
       (\<forall>ev\<in>set (fst (main no_mainline_env)). \<not> diff_work ev) \<and>
       stdout (main no_mainline_env) = []"
    by (elim conjE)
  from this [THEN spec, THEN spec, THEN mp, OF h]
  have c: "snd (main no_mainline_env) = Inl (Exit 1) \<and> exit_code (main no_mainline_env) \<noteq> 0 \<and>
       (\<forall>ev\<in>set (fst (main no_mainline_env)). \<not> diff_work ev) \<and>
       stdout (main no_mainline_env) = []" .
  from h1 h2 h3 h4 c show ?thesis by (simp only: simp_thms)
qed

text \<open>
  C10: when the lookup of \<open>main\<close> fails with an error that is not branch-not-found,
  the run never looks up \<open>master\<close> and ends with \<open>os.Exit(1)\<close>, having printed nothing.
\<close>

theorem other_error_on_main_is_fatal:
  assumes br: "env_Branch e ''main'' = Inl err" and other: "\<not> errors_Is err ErrBranchNotFound"
  shows "Call_Branch ''master'' \<notin> set (fst (main e)) \<and> snd (main e) = Inl (Exit 1) \<and>
         exit_code (main e) \<noteq> 0 \<and> stdout (main e) = []"
proof -
  note fm = find_main_branch_other_error [OF br other]
  show ?thesis
  proof (cases e rule: main_cases)
    case (at_setup a)
    from open_branch_abort [OF at_setup(1)] at_setup(2)
    show ?thesis
      by (simp add: exit_code_def stdout_def open_branch_quiet)
  next
    case (at_mainline rs cb a)
    with fm have "a = Exit 1" by simp
    with at_mainline fm show ?thesis
      by (simp add: exit_code_def stdout_def open_branch_quiet printed_append)
  next
    case (at_diff rs cb mb a)
    with fm show ?thesis by simp
  next
    case (at_owners rs cb mb patch)
    with fm show ?thesis by simp
  qed
qed

theorem other_error_on_main_is_fatal_witness:
  "env_Branch broken_config_env ''main'' =
     Inl (ErrWrapped ''read config'' (ErrOther ''permission denied'')) \<and>
   \<not> errors_Is (ErrWrapped ''read config'' (ErrOther ''permission denied'')) ErrBranchNotFound \<and>
   Call_Branch ''master'' \<notin> set (fst (main broken_config_env)) \<and>
   snd (main broken_config_env) = Inl (Exit 1) \<and>
   exit_code (main broken_config_env) \<noteq> 0 \<and>
   stdout (main broken_config_env) = []"
proof -
  have h1: "env_Branch broken_config_env ''main'' =
     Inl (ErrWrapped ''read config'' (ErrOther ''permission denied''))"
    by (simp add: broken_config_env_def)
  have h2: "\<not> errors_Is (ErrWrapped ''read config'' (ErrOther ''permission denied''))
              ErrBranchNotFound" by simp
  from other_error_on_main_is_fatal [OF h1 h2] h1 h2 show ?thesis by (simp only: simp_thms)
qed

text \<open>
  C1 names what the code misses. The loop of lines 117-126 goes on to the next path when
  \<open>Match\<close> returns an error (line 119, see \<open>match_loop_Cons\<close>), but line 123 reads
  \<open>rule.Owners\<close> without testing the rule: in a run that got as far as the patch, one
  changed path for which \<open>Match\<close> returns neither a rule nor an error ends the run with
  a panic, exit status 2, and nothing is printed, not even the owners of the other paths.
\<close>

theorem nil_rule_panics:
  assumes ob: "snd (open_branch e) = Inr (rs, cb)"
    and fm: "snd (find_main_branch e) = Inr mb"
    and dt: "snd (diff_trees e cb mb) = Inr patch"
    and p: "p \<in> set (changed_paths patch)"
    and nil: "env_Match e rs p = (None, None)"
  shows "snd (print_owners e rs patch) = Inl Panic \<and>
         snd (main e) = Inl Panic \<and> exit_code (main e) = 2 \<and> stdout (main e) = []"
proof -
  note po = print_owners_nil_rule [OF p nil]
  have m: "main e = (fst (open_branch e) @ fst (find_main_branch e) @ fst (diff_trees e cb mb) @
                       fst (print_owners e rs patch),
                     snd (print_owners e rs patch))"
    using ob fm dt by (simp add: main_def bind_def)
  from po have q: "printed (fst (print_owners e rs patch)) = []" by (simp add: stdout_def)
  from po m q show ?thesis
    by (simp add: exit_code_def stdout_def printed_append open_branch_quiet(1)
          find_main_branch_quiet(1) diff_trees_quiet)
qed

theorem nil_rule_panics_witness:
  "snd (open_branch unowned_env) = Inr ((), \<lparr>ref_IsBranch = True, ref_Hash = ''c2''\<rparr>) \<and>
   snd (find_main_branch unowned_env) =
     Inr \<lparr>branch_Name = ''main'', branch_Merge = ''refs/heads/main''\<rparr> \<and>
   snd (diff_trees unowned_env \<lparr>ref_IsBranch = True, ref_Hash = ''c2''\<rparr>
          \<lparr>branch_Name = ''main'', branch_Merge = ''refs/heads/main''\<rparr>) =
     Inr [modification ''README.md'', addition ''Makefile''] \<and>
   ''Makefile'' \<in> set (changed_paths [modification ''README.md'', addition ''Makefile'']) \<and>
   env_Match unowned_env () ''Makefile'' = (None, None) \<and>
   snd (main unowned_env) = Inl Panic \<and>
   exit_code (main unowned_env) = 2 \<and>
   stdout (main unowned_env) = []"
proof -
  have h1: "snd (open_branch unowned_env) = Inr ((), \<lparr>ref_IsBranch = True, ref_Hash = ''c2''\<rparr>)"
    by code_simp
  have h2: "snd (find_main_branch unowned_env) =
     Inr \<lparr>branch_Name = ''main'', branch_Merge = ''refs/heads/main''\<rparr>" by code_simp
  have h3: "snd (diff_trees unowned_env \<lparr>ref_IsBranch = True, ref_Hash = ''c2''\<rparr>
          \<lparr>branch_Name = ''main'', branch_Merge = ''refs/heads/main''\<rparr>) =
     Inr [modification ''README.md'', addition ''Makefile'']" by code_simp
  have h4: "''Makefile'' \<in> set (changed_paths [modification ''README.md'', addition ''Makefile''])"
    by code_simp
  have h5: "env_Match unowned_env () ''Makefile'' = (None, None)"
    by (simp add: unowned_env_def unowned_Match_def)
  note t = nil_rule_panics [OF h1 h2 h3 h4 h5, THEN conjunct2]
  from h1 h2 h3 h4 h5 t show ?thesis by (simp only: simp_thms)
qed

text \<open>
  C3, against the matcher as the specification describes it: when at least one rule
  matches the path, \<open>match\<close> returns a rule that matches it and after which, in the order
  of the file, no rule matches it; with the rules \<open>(*, A)\<close> and \<open>(*.go, B)\<close>, both of
  which match \<open>main.go\<close>, it returns the rule of owner B.
\<close>

theorem last_match_wins:
  "((\<exists>r\<in>set rs. pm (pattern r) p) \<longrightarrow>
      (\<exists>i<length rs. Ruleset_Match pm rs p = (Some (rs ! i), None) \<and>
         pm (pattern (rs ! i)) p \<and>
         (\<forall>j<length rs. i < j \<longrightarrow> \<not> pm (pattern (rs ! j)) p))) \<and>
   pattern_match ''*'' ''main.go'' \<and> pattern_match ''*.go'' ''main.go'' \<and>
   Ruleset_Match pattern_match star_rules ''main.go'' =
     (Some \<lparr>pattern = ''*.go'', Owners = [''B'']\<rparr>, None)"
proof (intro conjI impI)
  assume "\<exists>r\<in>set rs. pm (pattern r) p"
  from latest_match_last [of rs pm p None, OF this] obtain i where i: "i < length rs"
      "latest_match pm rs p None = Some (rs ! i)" "pm (pattern (rs ! i)) p"
      "\<forall>j<length rs. i < j \<longrightarrow> \<not> pm (pattern (rs ! j)) p" by blast
  from i(2) have "Ruleset_Match pm rs p = (Some (rs ! i), None)"
    by (simp add: Ruleset_Match_def)
  with i show "\<exists>i<length rs. Ruleset_Match pm rs p = (Some (rs ! i), None) \<and>
         pm (pattern (rs ! i)) p \<and>
         (\<forall>j<length rs. i < j \<longrightarrow> \<not> pm (pattern (rs ! j)) p)" by blast
next
  show "pattern_match ''*'' ''main.go''" by code_simp
  show "pattern_match ''*.go'' ''main.go''" by code_simp
  show "Ruleset_Match pattern_match star_rules ''main.go'' =
     (Some \<lparr>pattern = ''*.go'', Owners = [''B'']\<rparr>, None)" by code_simp
qed

theorem last_match_wins_witness:
  "(\<exists>r\<in>set star_rules. pattern_match (pattern r) ''main.go'') \<and>
   (\<exists>i<length star_rules.
      Ruleset_Match pattern_match star_rules ''main.go'' = (Some (star_rules ! i), None) \<and>
      pattern_match (pattern (star_rules ! i)) ''main.go'' \<and>
      (\<forall>j<length star_rules. i < j \<longrightarrow> \<not> pattern_match (pattern (star_rules ! j)) ''main.go''))"
proof -
  have "pattern_match (pattern \<lparr>pattern = ''*'', Owners = [''A'']\<rparr>) ''main.go''" by code_simp
  then have h: "\<exists>r\<in>set star_rules. pattern_match (pattern r) ''main.go''"
    unfolding star_rules_def by (meson list.set_intros(1))
  from last_match_wins [of star_rules pattern_match "''main.go''", THEN conjunct1, THEN mp, OF h] h
  show ?thesis by (rule conjI [rotated])
qed

text \<open>
  C4, against the patterns as the specification describes them, for every plain
  directory name \<open>d\<close> and every path: the pattern \<open>/d/\<close> matches exactly the paths that
  begin with \<open>d/\<close>, so it matches nothing that lies below another directory; the
  pattern \<open>d/\<close> matches exactly the paths that have \<open>d\<close> as a segment with something
  beneath it, so it matches below any chain of directories, and a path it matches is
  still matched when moved one directory down. With \<open>docs\<close> for \<open>d\<close>: \<open>/docs/\<close> matches
  \<open>docs/readme.md\<close> and not \<open>sub/docs/readme.md\<close>; \<open>docs/\<close> matches both.
\<close>

theorem anchored_and_unanchored_patterns:
  assumes d: "plain_name d"
  shows "(pattern_match (''/'' @ d @ ''/'') p \<longleftrightarrow> (\<exists>rest. p = d @ ''/'' @ rest)) \<and>
         (pattern_match (d @ ''/'') p \<longleftrightarrow>
            (\<exists>pre post. post \<noteq> [] \<and> split_on CHR ''/'' p = pre @ d # post)) \<and>
         (\<forall>dirs rest. (\<forall>s\<in>set dirs. CHR ''/'' \<notin> set s) \<longrightarrow>
            pattern_match (d @ ''/'') (concat (map (\<lambda>s. s @ ''/'') dirs) @ d @ ''/'' @ rest)) \<and>
         (\<forall>dir. CHR ''/'' \<notin> set dir \<and> pattern_match (d @ ''/'') p \<longrightarrow>
            pattern_match (d @ ''/'') (dir @ ''/'' @ p)) \<and>
         (\<forall>dir. CHR ''/'' \<notin> set dir \<and> dir \<noteq> d \<longrightarrow>
            \<not> pattern_match (''/'' @ d @ ''/'') (dir @ ''/'' @ p)) \<and>
         pattern_match ''/docs/'' ''docs/readme.md'' \<and>
         \<not> pattern_match ''/docs/'' ''sub/docs/readme.md'' \<and>
         pattern_match ''docs/'' ''docs/readme.md'' \<and>
         pattern_match ''docs/'' ''sub/docs/readme.md''"
proof -
  note c = plain_name_chars [OF d]
  have A: "pattern_match (''/'' @ d @ ''/'') q \<longleftrightarrow> (\<exists>rest. q = d @ ''/'' @ rest)" for q
    unfolding pattern_match_anchored_dir [OF c(2)] segments_match_dir [OF c(3)]
    using split_on_Cons_iff [OF c(2), of q] by simp
  have B: "pattern_match (d @ ''/'') p \<longleftrightarrow>
            (\<exists>pre post. post \<noteq> [] \<and> split_on CHR ''/'' p = pre @ d # post)"
    unfolding pattern_match_unanchored_dir [OF c(1) c(2)] by (rule at_any_depth_dir [OF c(3)])
  have C: "\<forall>dirs rest. (\<forall>s\<in>set dirs. CHR ''/'' \<notin> set s) \<longrightarrow>
            pattern_match (d @ ''/'') (concat (map (\<lambda>s. s @ ''/'') dirs) @ d @ ''/'' @ rest)"
    using unanchored_dir_any_depth [OF d] by blast
  have D: "\<forall>dir. CHR ''/'' \<notin> set dir \<and> pattern_match (d @ ''/'') p \<longrightarrow>
            pattern_match (d @ ''/'') (dir @ ''/'' @ p)"
    using unanchored_dir_deeper [OF c(1) c(2)] by blast
  have E: "\<forall>dir. CHR ''/'' \<notin> set dir \<and> dir \<noteq> d \<longrightarrow>
            \<not> pattern_match (''/'' @ d @ ''/'') (dir @ ''/'' @ p)"
  proof (intro allI impI notI)
    fix dir
    assume h: "CHR ''/'' \<notin> set dir \<and> dir \<noteq> d"
      and "pattern_match (''/'' @ d @ ''/'') (dir @ ''/'' @ p)"
    with A [of "dir @ ''/'' @ p"] obtain rest where "dir @ ''/'' @ p = d @ ''/'' @ rest" by blast
    then have "dir @ CHR ''/'' # p = d @ CHR ''/'' # rest" by simp
    from same_first_segment [OF _ c(2) this] h show False by simp
  qed
  have F: "pattern_match ''/docs/'' ''docs/readme.md'' \<and>
         \<not> pattern_match ''/docs/'' ''sub/docs/readme.md'' \<and>
         pattern_match ''docs/'' ''docs/readme.md'' \<and>
         pattern_match ''docs/'' ''sub/docs/readme.md''" by code_simp
  from A [of p] B C D E F show ?thesis by (intro conjI) (simp_all only: simp_thms)
qed

theorem anchored_and_unanchored_patterns_witness:
  "plain_name ''docs'' \<and>
   pattern_match ''/docs/'' ''docs/api/readme.md'' \<and>
   \<not> pattern_match ''/docs/'' ''a/b/docs/readme.md'' \<and>
   pattern_match ''docs/'' ''a/b/docs/readme.md''"
proof -
  have h: "plain_name ''docs''" by (simp add: plain_name_def)
  note t = anchored_and_unanchored_patterns [OF h]
  have 1: "pattern_match ''/docs/'' ''docs/api/readme.md''"
    using t [of "''docs/api/readme.md''", THEN conjunct1] by simp
  have "CHR ''/'' \<notin> set ''a'' \<and> ''a'' \<noteq> ''docs''" by simp
  with t [of "''b/docs/readme.md''", THEN conjunct2, THEN conjunct2, THEN conjunct2,
      THEN conjunct2, THEN conjunct1, THEN spec, of "''a''"]
  have 2: "\<not> pattern_match ''/docs/'' ''a/b/docs/readme.md''" by simp
  have "\<forall>s\<in>set [''a'', ''b'']. CHR ''/'' \<notin> set s" by simp
  with t [of "[]", THEN conjunct2, THEN conjunct2, THEN conjunct1, THEN spec, THEN spec,
      of "[''a'', ''b'']" "''readme.md''"]
  have 3: "pattern_match ''docs/'' ''a/b/docs/readme.md''" by simp
  from h 1 2 3 show ?thesis by (intro conjI)
qed

end
